theory Spec2Isabelle
  imports Complex_Main "HOL-Library.Word" "HOL-Library.Log_Nat"
begin

section \<open>JavaScript values used by the binding\<close>

text \<open>
  The ring fields \<open>memoryIndex\<close>, \<open>memorySlotsUsed\<close> and \<open>memoryCount\<close> are JavaScript
  numbers that hold integers. They are modelled as \<open>int\<close> (exact below \<open>2^53\<close>); the only
  non-integer value the ring arithmetic can produce from integers is \<open>NaN\<close>
  (the remainder by zero), so the index is an integer or \<open>NaN\<close>.
\<close>

datatype jsint = JNaN | JInt int

text \<open>The \<open>%\<close> operator: the remainder of the truncated division, with the sign of the dividend.\<close>

fun js_rem :: "jsint \<Rightarrow> int \<Rightarrow> jsint" where
  "js_rem JNaN b = JNaN"
| "js_rem (JInt a) b = (if b = 0 then JNaN else JInt (sgn a * (\<bar>a\<bar> mod \<bar>b\<bar>)))"

fun js_add :: "jsint \<Rightarrow> int \<Rightarrow> jsint" where
  "js_add JNaN b = JNaN"
| "js_add (JInt a) b = JInt (a + b)"

text \<open>A string is falsy when it is \<open>undefined\<close> or empty.\<close>

fun truthy_str :: "string option \<Rightarrow> bool" where
  "truthy_str None = False"
| "truthy_str (Some s) = (s \<noteq> [])"

text \<open>\<open>s.split('\n')\<close>: the pieces between line feeds, empty pieces included.\<close>

fun split_nl :: "string \<Rightarrow> string list" where
  "split_nl [] = [[]]"
| "split_nl (ch # s) =
     (if ch = CHR 0x0A then [] # split_nl s
      else (case split_nl s of [] \<Rightarrow> [[ch]] | p # ps \<Rightarrow> (ch # p) # ps))"

text \<open>
  A number that is not known to be an integer (a sample of a \<open>Float32Array\<close>, a class
  probability, a threshold, a box coordinate) is \<open>NaN\<close> or a finite value, kept as the
  rational it denotes. Infinities and the sign of zero play no part in the code below and
  are left out.
\<close>

datatype jsfloat = FNaN | Fin rat

text \<open>\<open>v > 0\<close> on numbers: false for \<open>NaN\<close>.\<close>

fun gt0 :: "jsfloat \<Rightarrow> bool" where
  "gt0 FNaN = False"
| "gt0 (Fin r) = (0 < r)"

text \<open>Truthiness of an optional number: \<open>undefined\<close>, \<open>NaN\<close> and \<open>0\<close> are falsy.\<close>

fun truthy_num :: "jsfloat option \<Rightarrow> bool" where
  "truthy_num None = False"
| "truthy_num (Some FNaN) = False"
| "truthy_num (Some (Fin r)) = (r \<noteq> 0)"

subsection \<open>Binary floating point: rounding to nearest, ties to even\<close>

text \<open>
  \<open>floor_log2 x\<close> is, for \<open>x > 0\<close>, the exponent \<open>e\<close> with \<open>2^e \<le> x < 2^(e+1)\<close>, found from
  the bit lengths of numerator and denominator.
\<close>

definition floor_log2 :: "rat \<Rightarrow> int" where
  "floor_log2 x =
     (let (n, d) = quotient_of x;
          k = bitlen n - bitlen d
      in if 2 powi k \<le> x then k else k - 1)"

definition round_half_even :: "rat \<Rightarrow> int" where
  "round_half_even m =
     (let f = \<lfloor>m\<rfloor>; d = m - of_int f
      in if d < 1 / 2 then f
         else if 1 / 2 < d then f + 1
         else if even f then f else f + 1)"

text \<open>
  \<open>round_prec p emin x\<close>: the nearest value with a \<open>p\<close>-bit significand, exponents no
  smaller than \<open>emin\<close> (below it the spacing stays that of \<open>emin\<close>, the subnormal range).
  Overflow to infinity is not modelled; every value rounded below is at most 255.
\<close>

definition round_prec :: "nat \<Rightarrow> int \<Rightarrow> rat \<Rightarrow> rat" where
  "round_prec p emin x =
     (if x = 0 then 0
      else let a = \<bar>x\<bar>;
               e = max (floor_log2 a) emin;
               q = 2 powi (e - int p + 1)
           in sgn x * of_int (round_half_even (a / q)) * q)"

text \<open>IEEE 754 binary64 (every JavaScript arithmetic result) and binary32 (a \<open>Float32Array\<close> cell).\<close>

definition to_double :: "rat \<Rightarrow> rat" where
  "to_double = round_prec 53 (- 1022)"

definition to_single :: "rat \<Rightarrow> rat" where
  "to_single = round_prec 24 (- 126)"

text \<open>The expressions \<open>v / 255\<close> and \<open>v * 255\<close>.\<close>

fun div255 :: "jsfloat \<Rightarrow> jsfloat" where
  "div255 FNaN = FNaN"
| "div255 (Fin a) = Fin (to_double (a / 255))"

fun mul255 :: "jsfloat \<Rightarrow> jsfloat" where
  "mul255 FNaN = FNaN"
| "mul255 (Fin a) = Fin (to_double (a * 255))"

text \<open>Storing a number into a \<open>Float32Array\<close> cell.\<close>

fun to_f32 :: "jsfloat \<Rightarrow> jsfloat" where
  "to_f32 FNaN = FNaN"
| "to_f32 (Fin a) = Fin (to_single a)"

text \<open>
  Storing a number into a \<open>Buffer\<close> (\<open>Uint8Array\<close>) cell: \<open>NaN\<close> becomes 0, anything else
  is truncated towards zero and taken modulo 256.
\<close>

fun to_uint8 :: "jsfloat \<Rightarrow> 8 word" where
  "to_uint8 FNaN = 0"
| "to_uint8 (Fin a) = word_of_int (if 0 \<le> a then \<lfloor>a\<rfloor> else \<lceil>a\<rceil>)"

text \<open>
  Reading a cell: an index past the end yields \<open>undefined\<close>, which the arithmetic
  applied to it turns into \<open>NaN\<close>.
\<close>

definition byte_at :: "8 word list \<Rightarrow> nat \<Rightarrow> jsfloat" where
  "byte_at buffer idx = (if idx < length buffer then Fin (of_nat (unat (buffer ! idx))) else FNaN)"

definition float_at :: "jsfloat list \<Rightarrow> nat \<Rightarrow> jsfloat" where
  "float_at arr idx = (if idx < length arr then arr ! idx else FNaN)"

section \<open>The detector object and the native calls it makes\<close>

datatype error =
    ConfigRequired
  | NoClassNames
  | NoNamesDetected
  | NoYoloConfig
  | NoWeights
  | FileError
  | NativeError nat

text \<open>
  Every call into the native library is recorded, in order, with the arguments that matter
  here.
\<close>

datatype native_call =
    OpenLibrary
  | LoadNetwork string string
  | NetworkOutputSize
  | NetworkMemoryMake int
  | NetworkMemoryFree int
  | NetworkRememberMemory jsint
  | NetworkAvgPredictions int nat nat jsfloat jsfloat
  | NetworkPredictImage
  | DoNmsObj int nat jsfloat
  | FreeDetections int
  | LoadImageColor string
  | FloatToImage nat nat nat "jsfloat list"
  | FreeImage

text \<open>
  The fields of \<open>DarknetBase\<close> / \<open>Darknet\<close>. \<open>memory\<close> stands for the native slot array:
  the list of the slot indices that \<open>network_remember_memory\<close> has filled since
  \<open>network_memory_make\<close> allocated it. \<open>calls\<close> is the trace of native calls.
\<close>

record darknet =
  names :: "string list"
  meta_classes :: nat
  memoryIndex :: jsint
  memorySlotsUsed :: int
  memoryCount :: int
  memory :: "jsint list"
  calls :: "native_call list"

record IDarknetConfig =
  cfg_weights :: "string option"
  cfg_config :: "string option"
  cfg_names :: "string list option"
  cfg_namefile :: "string option"
  cfg_memory :: "int option"

text \<open>What the constructor depends on outside the program: the file system and the loader.\<close>

record env =
  readFileSync :: "string \<Rightarrow> string option"
  library_loads :: bool

subsection \<open>Memory ring\<close>

definition makeMemory :: "darknet \<Rightarrow> darknet" where
  "makeMemory st =
     st\<lparr> memoryIndex := JInt 0,
         memory := [],
         calls := calls st @ [NetworkMemoryMake (memoryCount st)],
         memorySlotsUsed := 0 \<rparr>"

definition resetMemory :: "int option \<Rightarrow> darknet \<Rightarrow> darknet" where
  "resetMemory arg st =
     (let mem = (case arg of None \<Rightarrow> memoryCount st | Some m \<Rightarrow> m);
          st1 = st\<lparr> calls := calls st @ [NetworkMemoryFree (memoryCount st)] \<rparr>;
          st2 = st1\<lparr> memoryCount := mem \<rparr>
      in makeMemory st2)"

text \<open>
  \<open>rememberNet\<close>: the native call is made with the current index; when it rejects, the
  rejection is passed on and the fields are left as they were.
\<close>

definition rememberNet :: "error option \<Rightarrow> darknet \<Rightarrow> (error + unit) \<times> darknet" where
  "rememberNet outcome st =
     (let st1 = st\<lparr> calls := calls st @ [NetworkRememberMemory (memoryIndex st)] \<rparr>
      in case outcome of
           Some e \<Rightarrow> (Inl e, st1)
         | None \<Rightarrow>
             (Inr (),
              st1\<lparr> memory := memory st1 @ [memoryIndex st1],
                   memoryIndex := js_rem (js_add (memoryIndex st1) 1) (memoryCount st1),
                   memorySlotsUsed := min (memorySlotsUsed st1 + 1) (memoryCount st1) \<rparr>))"

subsection \<open>Constructor\<close>

definition constructor :: "env \<Rightarrow> IDarknetConfig option \<Rightarrow> native_call list \<times> (error + darknet)" where
  "constructor e config =
     (case config of
        None \<Rightarrow> ([], Inl ConfigRequired)
      | Some cfg \<Rightarrow>
          if cfg_names cfg = None \<and> \<not> truthy_str (cfg_namefile cfg) then ([], Inl NoClassNames)
          else
            (case (if cfg_names cfg = None
                   then (case readFileSync e (the (cfg_namefile cfg)) of
                           None \<Rightarrow> Inl FileError
                         | Some txt \<Rightarrow> Inr (Some (split_nl txt)))
                   else Inr (cfg_names cfg)) of
               Inl err \<Rightarrow> ([], Inl err)
             | Inr None \<Rightarrow> ([], Inl NoNamesDetected)
             | Inr (Some ns) \<Rightarrow>
                 if \<not> truthy_str (cfg_config cfg) then ([], Inl NoYoloConfig)
                 else if \<not> truthy_str (cfg_weights cfg) then ([], Inl NoWeights)
                 else if \<not> library_loads e then ([OpenLibrary], Inl (NativeError 0))
                 else
                   (let kept = filter (\<lambda>a. length a > 0) ns;
                        st = makeMemory
                          \<lparr> names = kept,
                            meta_classes = length kept,
                            memoryIndex = JInt 0,
                            memorySlotsUsed = 0,
                            memoryCount = (case cfg_memory cfg of
                                             None \<Rightarrow> 3
                                           | Some m \<Rightarrow> if m = 0 then 3 else m),
                            memory = [],
                            calls = [OpenLibrary,
                                     LoadNetwork (the (cfg_config cfg)) (the (cfg_weights cfg)),
                                     NetworkOutputSize] \<rparr>
                    in (calls st, Inr st))))"

section \<open>Image codec\<close>

text \<open>
  The native \<open>IMAGE\<close> struct. \<open>img_data\<close> is the memory behind the \<open>data\<close> pointer, read
  by element offset.
\<close>

record IMAGE =
  img_w :: nat
  img_h :: nat
  img_c :: nat
  img_data :: "nat \<Rightarrow> jsfloat"

text \<open>
  \<open>rgbToDarknet\<close>: a zero-filled \<open>Float32Array\<close> of \<open>w * h * c\<close> cells, written by three
  nested loops over row \<open>i\<close>, channel \<open>k\<close> and column \<open>j\<close>. A write to a typed array past
  its end is ignored, as \<open>list_update\<close> does.
\<close>

definition rgbToDarknet :: "8 word list \<Rightarrow> nat \<Rightarrow> nat \<Rightarrow> nat \<Rightarrow> jsfloat list" where
  "rgbToDarknet buffer w h c =
     (let imageElements = w * h * c;
          floatBuff = replicate imageElements (Fin 0);
          step = w * c
      in fold (\<lambda>i. fold (\<lambda>k. fold (\<lambda>j fb.
                 fb[k * w * h + i * w + j := to_f32 (div255 (byte_at buffer (i * step + j * c + k)))])
               [0..<w]) [0..<c]) [0..<h] floatBuff)"

text \<open>
  \<open>imageToRGBBuffer\<close>: \<open>Buffer.allocUnsafe\<close> hands out uninitialised bytes, here the
  parameter \<open>garbage\<close>.
\<close>

definition imageToRGBBuffer :: "(nat \<Rightarrow> 8 word) \<Rightarrow> IMAGE \<Rightarrow> 8 word list" where
  "imageToRGBBuffer garbage img =
     (let w = img_w img; h = img_h img; c = img_c img;
          imageElements = w * h * c;
          imageData = map (img_data img) [0..<imageElements];
          rgbBuffer = map garbage [0..<length imageData];
          step = c * w
      in fold (\<lambda>i. fold (\<lambda>k. fold (\<lambda>j rgb.
                 rgb[i * step + j * c + k := to_uint8 (mul255 (float_at imageData (k * w * h + i * w + j)))])
               [0..<w]) [0..<c]) [0..<h] rgbBuffer)"

section \<open>Detection\<close>

record BBOX =
  box_x :: jsfloat
  box_y :: jsfloat
  box_w :: jsfloat
  box_h :: jsfloat

text \<open>
  The fields of the native \<open>DETECTION\<close> struct that are read: the box and the memory behind
  the \<open>prob\<close> pointer. A detection array is the memory behind its pointer, read by record
  offset.
\<close>

record DETECTION =
  bbox :: BBOX
  raw_prob :: "nat \<Rightarrow> jsfloat"

text \<open>An emitted entry; \<open>name\<close> is \<open>None\<close> where \<open>names[j]\<close> is \<open>undefined\<close>.\<close>

record Detection =
  name :: "string option"
  prob :: jsfloat
  box :: BBOX

record IConfig =
  thresh :: "jsfloat option"
  hier_thresh :: "jsfloat option"
  nms :: "jsfloat option"

record IBufferImage =
  buf_b :: "8 word list"
  buf_w :: nat
  buf_h :: nat
  buf_c :: nat

datatype image_arg = Path string | BufferImage IBufferImage

text \<open>
  What the native library answers during one detect call: each asynchronous call either
  rejects with an error or delivers its result. \<open>nms_res\<close> is the detection array after the
  in-place suppression.
\<close>

record native =
  image_res :: "error + IMAGE"
  predict_res :: "error option"
  remember_res :: "error option"
  avg_res :: "error + ((nat \<Rightarrow> DETECTION) \<times> int)"
  nms_res :: "error + (nat \<Rightarrow> DETECTION)"
  free_image_res :: "error option"

definition names_at :: "string list \<Rightarrow> nat \<Rightarrow> string option" where
  "names_at ns j = (if j < length ns then Some (ns ! j) else None)"

definition getArrayFromBuffer :: "(nat \<Rightarrow> jsfloat) \<Rightarrow> nat \<Rightarrow> jsfloat list" where
  "getArrayFromBuffer buffer len = fold (\<lambda>i array. array @ [buffer i]) [0..<len] []"

definition bufferToDetections :: "darknet \<Rightarrow> (nat \<Rightarrow> DETECTION) \<Rightarrow> int \<Rightarrow> Detection list" where
  "bufferToDetections st buffer len =
     fold (\<lambda>i detections.
             let det = buffer i;
                 pr = getArrayFromBuffer (raw_prob det) (meta_classes st)
             in fold (\<lambda>j detections.
                        if gt0 (float_at pr j)
                        then detections @
                               [\<lparr> name = names_at (names st) j,
                                  prob = float_at pr j,
                                  box = \<lparr> box_x = box_x (bbox det), box_y = box_y (bbox det),
                                          box_w = box_w (bbox det), box_h = box_h (bbox det) \<rparr> \<rparr>]
                        else detections)
                     [0..<meta_classes st] detections)
          [0..<nat len] []"

definition avgPrediction ::
  "native \<Rightarrow> nat \<Rightarrow> nat \<Rightarrow> jsfloat \<Rightarrow> jsfloat \<Rightarrow> darknet
     \<Rightarrow> (error + ((nat \<Rightarrow> DETECTION) \<times> int)) \<times> darknet" where
  "avgPrediction n w h th hier st =
     (avg_res n,
      st\<lparr> calls := calls st @ [NetworkAvgPredictions (memorySlotsUsed st) w h th hier] \<rparr>)"

text \<open>\<open>_detectAsync\<close>: predict, remember, average, suppress, decode, free the array.\<close>

definition detectAsync_inner ::
  "native \<Rightarrow> IMAGE \<Rightarrow> jsfloat \<Rightarrow> jsfloat \<Rightarrow> jsfloat \<Rightarrow> darknet
     \<Rightarrow> (error + Detection list) \<times> darknet" where
  "detectAsync_inner n img th hier_th nm st =
     (let st1 = st\<lparr> calls := calls st @ [NetworkPredictImage] \<rparr>
      in case predict_res n of
           Some e \<Rightarrow> (Inl e, st1)
         | None \<Rightarrow>
            (case rememberNet (remember_res n) st1 of
               (Inl e, st2) \<Rightarrow> (Inl e, st2)
             | (Inr u, st2) \<Rightarrow>
                (case avgPrediction n (img_w img) (img_h img) th hier_th st2 of
                   (Inl e, st3) \<Rightarrow> (Inl e, st3)
                 | (Inr (dets, num), st3) \<Rightarrow>
                    (let st4 = st3\<lparr> calls := calls st3 @ [DoNmsObj num (meta_classes st3) nm] \<rparr>
                     in case nms_res n of
                          Inl e \<Rightarrow> (Inl e, st4)
                        | Inr dets' \<Rightarrow>
                            (let detections = bufferToDetections st4 dets' num;
                                 st5 = st4\<lparr> calls := calls st4 @ [FreeDetections num] \<rparr>
                             in (Inr detections, st5))))))"

definition getImageFromPathAsync :: "native \<Rightarrow> string \<Rightarrow> darknet \<Rightarrow> (error + IMAGE) \<times> darknet" where
  "getImageFromPathAsync n path st =
     (image_res n, st\<lparr> calls := calls st @ [LoadImageColor path] \<rparr>)"

definition RGBBufferToImageAsync ::
  "native \<Rightarrow> 8 word list \<Rightarrow> nat \<Rightarrow> nat \<Rightarrow> nat \<Rightarrow> darknet \<Rightarrow> (error + IMAGE) \<times> darknet" where
  "RGBBufferToImageAsync n buffer w h c st =
     (let floatBuff = rgbToDarknet buffer w h c
      in (image_res n, st\<lparr> calls := calls st @ [FloatToImage w h c floatBuff] \<rparr>))"

text \<open>The threshold defaults, the first lines of \<open>detectAsync\<close> and \<open>detectFromImageAsync\<close>.\<close>

definition thresholds :: "IConfig option \<Rightarrow> jsfloat \<times> jsfloat \<times> jsfloat" where
  "thresholds config =
     (let cfg = (case config of
                   None \<Rightarrow> \<lparr> thresh = None, hier_thresh = None, nms = None \<rparr>
                 | Some c \<Rightarrow> c);
          th = (if truthy_num (thresh cfg) then the (thresh cfg) else Fin (1 / 2));
          hier_th = (if truthy_num (hier_thresh cfg) then the (hier_thresh cfg) else Fin (1 / 2));
          nm = (if truthy_num (nms cfg) then the (nms cfg) else Fin (1 / 2))
      in (th, hier_th, nm))"

definition detectAsync ::
  "native \<Rightarrow> image_arg \<Rightarrow> IConfig option \<Rightarrow> darknet \<Rightarrow> (error + Detection list) \<times> darknet" where
  "detectAsync n img config st =
     (case thresholds config of (th, hier_th, nm) \<Rightarrow>
        (let darkNetLoadedImage = (case img of Path p \<Rightarrow> True | BufferImage bi \<Rightarrow> False)
         in case (case img of
                    Path p \<Rightarrow> getImageFromPathAsync n p st
                  | BufferImage bi \<Rightarrow>
                      RGBBufferToImageAsync n (buf_b bi) (buf_w bi) (buf_h bi) (buf_c bi) st) of
              (Inl e, st1) \<Rightarrow> (Inl e, st1)
            | (Inr imageData, st1) \<Rightarrow>
               (case detectAsync_inner n imageData th hier_th nm st1 of
                  (Inl e, st2) \<Rightarrow> (Inl e, st2)
                | (Inr detection, st2) \<Rightarrow>
                    if darkNetLoadedImage
                    then (let st3 = st2\<lparr> calls := calls st2 @ [FreeImage] \<rparr>
                          in case free_image_res n of
                               Some e \<Rightarrow> (Inl e, st3)
                             | None \<Rightarrow> (Inr detection, st3))
                    else (Inr detection, st2))))"

definition detectFromImageAsync ::
  "native \<Rightarrow> IMAGE \<Rightarrow> IConfig option \<Rightarrow> darknet \<Rightarrow> (error + Detection list) \<times> darknet" where
  "detectFromImageAsync n img config st =
     (case thresholds config of (th, hier_th, nm) \<Rightarrow> detectAsync_inner n img th hier_th nm st)"

section \<open>Sequences of calls on one detector\<close>

text \<open>\<open>remembers k\<close>: \<open>k\<close> calls of \<open>rememberNet\<close> in a row, the native call succeeding each time.\<close>

fun remembers :: "nat \<Rightarrow> darknet \<Rightarrow> darknet" where
  "remembers 0 st = st"
| "remembers (Suc k) st = snd (rememberNet None (remembers k st))"

text \<open>
  The calls that touch the ring: \<open>rememberNet\<close> on its own (with the outcome of its native
  call), \<open>resetMemory\<close> (with its optional argument), and the two public detect calls, which
  reach \<open>rememberNet\<close> through \<open>_detectAsync\<close>.
\<close>

datatype detector_op =
    OpRememberNet "error option"
  | OpResetMemory "int option"
  | OpDetect native image_arg "IConfig option"
  | OpDetectFromImage native IMAGE "IConfig option"

fun apply_op :: "detector_op \<Rightarrow> darknet \<Rightarrow> darknet" where
  "apply_op (OpRememberNet outcome) st = snd (rememberNet outcome st)"
| "apply_op (OpResetMemory arg) st = resetMemory arg st"
| "apply_op (OpDetect n img config) st = snd (detectAsync n img config st)"
| "apply_op (OpDetectFromImage n img config) st = snd (detectFromImageAsync n img config st)"

definition run :: "detector_op list \<Rightarrow> darknet \<Rightarrow> darknet" where
  "run ops st = fold apply_op ops st"

text \<open>The ring invariant of the data model: count at most capacity, index in \<open>[0, capacity)\<close>.\<close>

definition ring_inv :: "darknet \<Rightarrow> bool" where
  "ring_inv st =
     (memorySlotsUsed st \<le> memoryCount st \<and>
      (case memoryIndex st of JNaN \<Rightarrow> False | JInt i \<Rightarrow> 0 \<le> i \<and> i < memoryCount st))"

text \<open>A capacity given to \<open>resetMemory\<close> is positive (or left out).\<close>

fun capacity_ok :: "detector_op \<Rightarrow> bool" where
  "capacity_ok (OpResetMemory (Some m)) = (1 \<le> m)"
| "capacity_ok other = True"

text \<open>A concrete detector: three classes, default capacity, built from a valid configuration.\<close>

definition example_env :: env where
  "example_env = \<lparr> readFileSync = (\<lambda>p. None), library_loads = True \<rparr>"

definition example_config :: IDarknetConfig where
  "example_config =
     \<lparr> cfg_weights = Some ''yolo.weights'', cfg_config = Some ''yolo.cfg'',
       cfg_names = Some [''a'', ''b'', ''c''], cfg_namefile = None, cfg_memory = None \<rparr>"

definition example_state :: darknet where
  "example_state =
     \<lparr> names = [''a'', ''b'', ''c''], meta_classes = 3, memoryIndex = JInt 0,
       memorySlotsUsed = 0, memoryCount = 3, memory = [],
       calls = [OpenLibrary, LoadNetwork ''yolo.cfg'' ''yolo.weights'', NetworkOutputSize,
                NetworkMemoryMake 3] \<rparr>"

section \<open>Reading the trace of one detect call\<close>

text \<open>The native calls made between an earlier state and a later one.\<close>

definition new_calls :: "darknet \<Rightarrow> darknet \<Rightarrow> native_call list" where
  "new_calls before after = drop (length (calls before)) (calls after)"

text \<open>The thresholds a native call is given.\<close>

fun passed_on :: "native_call \<Rightarrow> jsfloat list" where
  "passed_on (NetworkAvgPredictions k w h th hier) = [th, hier]"
| "passed_on (DoNmsObj num cl nm) = [nm]"
| "passed_on other = []"

text \<open>The slot count an averaging call is given.\<close>

fun avg_slots :: "native_call \<Rightarrow> int list" where
  "avg_slots (NetworkAvgPredictions k w h th hier) = [k]"
| "avg_slots other = []"

text \<open>Every asynchronous native step of a detect call up to the suppression succeeds.\<close>

fun succeeded :: "error + 'a \<Rightarrow> bool" where
  "succeeded (Inl e) = False"
| "succeeded (Inr v) = True"

definition native_ok :: "native \<Rightarrow> bool" where
  "native_ok n =
     (succeeded (image_res n) \<and> predict_res n = None \<and> remember_res n = None \<and>
      succeeded (avg_res n) \<and> succeeded (nms_res n))"

text \<open>The same for \<open>_detectAsync\<close> alone, which is handed its image.\<close>

definition inner_ok :: "native \<Rightarrow> bool" where
  "inner_ok n =
     (predict_res n = None \<and> remember_res n = None \<and> succeeded (avg_res n) \<and>
      succeeded (nms_res n))"

text \<open>
  The slots that an averaging over the first \<open>memorySlotsUsed\<close> slots reads have all been
  filled since the ring was made.
\<close>

definition slots_filled :: "darknet \<Rightarrow> bool" where
  "slots_filled st = (\<forall>s \<in> set [0..memorySlotsUsed st - 1]. JInt s \<in> set (memory st))"

text \<open>A well-formed result: every entry has a positive probability and one of the class names.\<close>

definition well_formed :: "darknet \<Rightarrow> Detection list \<Rightarrow> bool" where
  "well_formed st dets = (\<forall>d \<in> set dets. gt0 (prob d) \<and> name d \<in> Some ` set (names st))"

text \<open>The ring part of the state.\<close>

definition ring_of :: "darknet \<Rightarrow> jsint \<times> int \<times> int \<times> jsint list" where
  "ring_of st = (memoryIndex st, memorySlotsUsed st, memoryCount st, memory st)"

text \<open>What one detection record contributes: an entry for each class with a positive probability.\<close>

definition decode_record :: "darknet \<Rightarrow> DETECTION \<Rightarrow> Detection list" where
  "decode_record st det =
     map (\<lambda>j. \<lparr> name = names_at (names st) j, prob = raw_prob det j, box = bbox det \<rparr>)
         (filter (\<lambda>j. gt0 (raw_prob det j)) [0..<meta_classes st])"

text \<open>A detection array whose records all carry one box and are positive for classes 0 and 2.\<close>

definition example_box :: BBOX where
  "example_box = \<lparr> box_x = Fin 10, box_y = Fin 20, box_w = Fin 30, box_h = Fin 40 \<rparr>"

definition example_buffer :: "nat \<Rightarrow> DETECTION" where
  "example_buffer =
     (\<lambda>i. \<lparr> bbox = example_box,
            raw_prob = (\<lambda>j. if j = 0 \<or> j = 2 then Fin (3 / 4) else Fin 0) \<rparr>)"

text \<open>How often a trace frees a detection array, frees an image, loads an image, averages.\<close>

fun is_free_detections :: "native_call \<Rightarrow> bool" where
  "is_free_detections (FreeDetections num) = True"
| "is_free_detections other = False"

fun is_free_image :: "native_call \<Rightarrow> bool" where
  "is_free_image FreeImage = True"
| "is_free_image other = False"

fun is_load_image :: "native_call \<Rightarrow> bool" where
  "is_load_image (LoadImageColor path) = True"
| "is_load_image other = False"

fun is_avg :: "native_call \<Rightarrow> bool" where
  "is_avg (NetworkAvgPredictions k w h th hier) = True"
| "is_avg other = False"

definition count_calls :: "(native_call \<Rightarrow> bool) \<Rightarrow> native_call list \<Rightarrow> nat" where
  "count_calls p tr = length (filter p tr)"

text \<open>Native answers for the examples: every step succeeds; the suppression rejects.\<close>

definition example_image :: IMAGE where
  "example_image = \<lparr> img_w = 4, img_h = 2, img_c = 3, img_data = (\<lambda>p. Fin 0) \<rparr>"

definition native_success :: native where
  "native_success =
     \<lparr> image_res = Inr example_image, predict_res = None, remember_res = None,
       avg_res = Inr (example_buffer, 1), nms_res = Inr example_buffer, free_image_res = None \<rparr>"

definition native_nms_rejects :: native where
  "native_nms_rejects = native_success \<lparr> nms_res := Inl (NativeError 1) \<rparr>"

text \<open>
  The native calls of one \<open>_detectAsync\<close> and of one \<open>detectAsync\<close>, spelled out by the
  outcome of each step; shown below to be exactly what the code issues.
\<close>

definition inner_trace ::
  "native \<Rightarrow> IMAGE \<Rightarrow> jsfloat \<Rightarrow> jsfloat \<Rightarrow> jsfloat \<Rightarrow> darknet \<Rightarrow> native_call list" where
  "inner_trace n im th hi nm st =
     NetworkPredictImage #
     (if predict_res n \<noteq> None then []
      else NetworkRememberMemory (memoryIndex st) #
        (if remember_res n \<noteq> None then []
         else NetworkAvgPredictions (min (memorySlotsUsed st + 1) (memoryCount st))
                (img_w im) (img_h im) th hi #
           (case avg_res n of
              Inl e \<Rightarrow> []
            | Inr (d, num) \<Rightarrow>
                DoNmsObj num (meta_classes st) nm #
                (case nms_res n of Inl e \<Rightarrow> [] | Inr d' \<Rightarrow> [FreeDetections num]))))"

definition load_call :: "image_arg \<Rightarrow> native_call" where
  "load_call im =
     (case im of
        Path p \<Rightarrow> LoadImageColor p
      | BufferImage bi \<Rightarrow>
          FloatToImage (buf_w bi) (buf_h bi) (buf_c bi)
            (rgbToDarknet (buf_b bi) (buf_w bi) (buf_h bi) (buf_c bi)))"

definition detect_trace :: "native \<Rightarrow> image_arg \<Rightarrow> IConfig option \<Rightarrow> darknet \<Rightarrow> native_call list" where
  "detect_trace n im config st =
     load_call im #
     (case image_res n of
        Inl e \<Rightarrow> []
      | Inr imageData \<Rightarrow>
          (case thresholds config of (th, hi, nm) \<Rightarrow> inner_trace n imageData th hi nm st) @
          (if inner_ok n \<and> (case im of Path p \<Rightarrow> True | BufferImage bi \<Rightarrow> False)
           then [FreeImage] else []))"

text \<open>The configuration lacks something the constructor asks for (absent or empty).\<close>

definition config_missing :: "IDarknetConfig option \<Rightarrow> bool" where
  "config_missing config =
     (case config of
        None \<Rightarrow> True
      | Some cfg \<Rightarrow>
          (cfg_names cfg = None \<and> \<not> truthy_str (cfg_namefile cfg)) \<or>
          \<not> truthy_str (cfg_config cfg) \<or> \<not> truthy_str (cfg_weights cfg))"

text \<open>The class names are at hand: given in the configuration, or in a file that can be read.\<close>

definition names_available :: "env \<Rightarrow> IDarknetConfig \<Rightarrow> bool" where
  "names_available e cfg =
     (cfg_names cfg \<noteq> None \<or> readFileSync e (the (cfg_namefile cfg)) \<noteq> None)"

text \<open>A configuration that names a file of class names no one can read.\<close>

definition example_namefile_config :: IDarknetConfig where
  "example_namefile_config =
     \<lparr> cfg_weights = Some ''yolo.weights'', cfg_config = Some ''yolo.cfg'',
       cfg_names = None, cfg_namefile = Some ''coco.names'', cfg_memory = None \<rparr>"

text \<open>
  What every call keeps true of the ring, whatever capacity it was given: with a positive
  capacity the count is at most the capacity, the index is in range and equals the count
  until the ring is full, and the counted slots are filled; with a capacity of zero or less
  the count is never positive.
\<close>

definition ring_steady :: "darknet \<Rightarrow> bool" where
  "ring_steady st =
     ((1 \<le> memoryCount st \<longrightarrow>
         memorySlotsUsed st \<le> memoryCount st \<and>
         (case memoryIndex st of
            JNaN \<Rightarrow> False
          | JInt i \<Rightarrow> 0 \<le> i \<and> i < memoryCount st \<and>
                     (memorySlotsUsed st < memoryCount st \<longrightarrow> i = memorySlotsUsed st)) \<and>
         slots_filled st) \<and>
      (memoryCount st \<le> 0 \<longrightarrow> memorySlotsUsed st \<le> 0))"

text \<open>The triples \<open>(i, k, j)\<close> the three loops of the codec run through, in their order.\<close>

definition loop_triples :: "nat \<Rightarrow> nat \<Rightarrow> nat \<Rightarrow> (nat \<times> nat \<times> nat) list" where
  "loop_triples w h c = List.product [0..<h] (List.product [0..<c] [0..<w])"

text \<open>A 2 x 1 image of three channels, interleaved, and the native image holding its planar form.\<close>

definition example_bytes :: "8 word list" where
  "example_bytes = [10, 20, 30, 40, 50, 60]"

definition example_planar_image :: IMAGE where
  "example_planar_image =
     \<lparr> img_w = 2, img_h = 1, img_c = 3,
       img_data = (\<lambda>p. rgbToDarknet example_bytes 2 1 3 ! p) \<rparr>"

section \<open>Memory ring: advancing and the invariant\<close>

lemma example_constructed:
  "constructor example_env (Some example_config) = (calls example_state, Inr example_state)"
  by (simp add: constructor_def example_env_def example_config_def example_state_def makeMemory_def)

lemma js_rem_nonneg: "0 \<le> a \<Longrightarrow> 1 \<le> b \<Longrightarrow> js_rem (JInt a) b = JInt (a mod b)"
  by (cases "a = 0") auto

lemma rememberNet_ok_fields:
  "memoryIndex st = JInt i \<Longrightarrow> 0 \<le> i \<Longrightarrow> 1 \<le> memoryCount st \<Longrightarrow>
   memoryIndex (snd (rememberNet None st)) = JInt ((i + 1) mod memoryCount st) \<and>
   memorySlotsUsed (snd (rememberNet None st)) = min (memorySlotsUsed st + 1) (memoryCount st) \<and>
   memoryCount (snd (rememberNet None st)) = memoryCount st"
  by (simp add: rememberNet_def js_rem_nonneg)

lemma remembers_fields:
  "1 \<le> memoryCount st \<Longrightarrow>
   memoryIndex (remembers k (makeMemory st)) = JInt (int k mod memoryCount st) \<and>
   memorySlotsUsed (remembers k (makeMemory st)) = min (int k) (memoryCount st) \<and>
   memoryCount (remembers k (makeMemory st)) = memoryCount st"
proof (induction k)
  case 0
  then show ?case by (simp add: makeMemory_def)
next
  case (Suc k)
  let ?s = "remembers k (makeMemory st)"
  have idx: "memoryIndex ?s = JInt (int k mod memoryCount st)"
    and used: "memorySlotsUsed ?s = min (int k) (memoryCount st)"
    and cnt: "memoryCount ?s = memoryCount st"
    using Suc by simp_all
  have nn: "0 \<le> int k mod memoryCount st" using Suc.prems by simp
  have m: "(int k mod memoryCount st + 1) mod memoryCount st = (int k + 1) mod memoryCount st"
    by (simp add: mod_add_left_eq)
  have s: "int (Suc k) = int k + 1" by simp
  from rememberNet_ok_fields [OF idx nn] Suc.prems cnt used
  show ?case unfolding remembers.simps s m [symmetric] by auto
qed

text \<open>
  C4. For a capacity \<open>N \<ge> 1\<close>, a freshly made memory has write index 0 and no populated
  slot. After \<open>k\<close> successful calls of \<open>rememberNet\<close> the write index is \<open>k mod N\<close> and the
  populated count is \<open>min k N\<close>; the next successful call sets the index to
  \<open>(index + 1) mod N\<close> and the count to \<open>min (count + 1) N\<close>. So the count is \<open>N\<close> from the
  \<open>N\<close>-th call on, and the index runs through \<open>0, 1, ..., N - 1, 0, ...\<close>.
\<close>

theorem ring_advance:
  assumes "1 \<le> N" and "memoryCount st = N"
  shows "memoryIndex (makeMemory st) = JInt 0 \<and> memorySlotsUsed (makeMemory st) = 0 \<and>
         memoryIndex (remembers k (makeMemory st)) = JInt (int k mod N) \<and>
         memorySlotsUsed (remembers k (makeMemory st)) = min (int k) N \<and>
         memoryIndex (snd (rememberNet None (remembers k (makeMemory st)))) =
           JInt ((int k mod N + 1) mod N) \<and>
         memorySlotsUsed (snd (rememberNet None (remembers k (makeMemory st)))) =
           min (memorySlotsUsed (remembers k (makeMemory st)) + 1) N \<and>
         (N \<le> int k \<longrightarrow> memorySlotsUsed (remembers k (makeMemory st)) = N)"
proof -
  have c: "1 \<le> memoryCount st" using assms by simp
  note f = remembers_fields [OF c, of k]
  have nn: "0 \<le> int k mod memoryCount st" using c by simp
  have idx: "memoryIndex (remembers k (makeMemory st)) = JInt (int k mod memoryCount st)"
    using f by simp
  have c': "1 \<le> memoryCount (remembers k (makeMemory st))" using f c by simp
  note g = rememberNet_ok_fields [OF idx nn c']
  show ?thesis using f g assms by (simp add: makeMemory_def)
qed

theorem ring_advance_witness:
  "memoryIndex (remembers 4 (makeMemory example_state)) = JInt 1 \<and>
   memorySlotsUsed (remembers 4 (makeMemory example_state)) = 3 \<and>
   memoryIndex (snd (rememberNet None (remembers 2 (makeMemory example_state)))) = JInt 0"
  using ring_advance [of 3 example_state 4] ring_advance [of 3 example_state 2]
  by (simp add: example_state_def)

section \<open>Decoding the detection array\<close>

lemma fold_snoc_map: "fold (\<lambda>i acc. acc @ [f i]) xs acc = acc @ map f xs"
  by (induction xs arbitrary: acc) simp_all

lemma getArrayFromBuffer_map: "getArrayFromBuffer buffer len = map buffer [0..<len]"
  by (simp add: getArrayFromBuffer_def fold_snoc_map)

lemma fold_snoc_filter:
  "fold (\<lambda>j acc. if P j then acc @ [g j] else acc) xs acc = acc @ map g (filter P xs)"
  by (induction xs arbitrary: acc) simp_all

lemma fold_append_concat: "fold (\<lambda>i acc. acc @ F i) xs acc = acc @ concat (map F xs)"
  by (induction xs arbitrary: acc) simp_all

lemma inner_fold:
  "fold (\<lambda>j detections.
            if gt0 (float_at (map pr [0..<n]) j)
            then detections @ [\<lparr> name = names_at ns j, prob = float_at (map pr [0..<n]) j, box = b \<rparr>]
            else detections) [0..<n] acc
   = acc @ map (\<lambda>j. \<lparr> name = names_at ns j, prob = pr j, box = b \<rparr>) (filter (\<lambda>j. gt0 (pr j)) [0..<n])"
proof -
  have "fold (\<lambda>j detections.
            if gt0 (float_at (map pr [0..<n]) j)
            then detections @ [\<lparr> name = names_at ns j, prob = float_at (map pr [0..<n]) j, box = b \<rparr>]
            else detections) [0..<n] acc
     = fold (\<lambda>j detections.
            if gt0 (pr j)
            then detections @ [\<lparr> name = names_at ns j, prob = pr j, box = b \<rparr>]
            else detections) [0..<n] acc"
    by (rule fold_cong) (auto simp: float_at_def)
  then show ?thesis by (simp add: fold_snoc_filter)
qed

lemma bbox_rebuild:
  "\<lparr> box_x = box_x b, box_y = box_y b, box_w = box_w b, box_h = box_h b \<rparr> = (b :: BBOX)"
  by (cases b) simp

lemma bufferToDetections_concat:
  "bufferToDetections st buffer len = concat (map (\<lambda>i. decode_record st (buffer i)) [0..<nat len])"
  by (simp add: bufferToDetections_def getArrayFromBuffer_map inner_fold decode_record_def
        fold_append_concat [where acc = "[]", simplified] Let_def bbox_rebuild)

lemma filter_two:
  assumes "j1 < j2" "j2 < n" "\<forall>j<n. P j \<longleftrightarrow> (j = j1 \<or> j = j2)"
  shows "filter P [0..<n] = [j1, j2]"
proof (rule sorted_distinct_set_unique)
  show "sorted (filter P [0..<n])" by (simp add: sorted_wrt_filter)
  show "distinct (filter P [0..<n])" by simp
  show "sorted [j1, j2]" using assms by simp
  show "distinct [j1, j2]" using assms by simp
  show "set (filter P [0..<n]) = set [j1, j2]" using assms by auto
qed

text \<open>
  C7. \<open>bufferToDetections\<close> emits, record by record, one entry for each class index
  \<open>j < classes\<close> whose probability is greater than 0, in the order of the indices, with
  the class name at index \<open>j\<close> and the box of the record. A record with no class above 0
  yields no entry; a record with exactly two classes above 0 yields two entries with the
  same box.
\<close>

theorem decode_entries:
  "bufferToDetections st buffer len =
     concat (map (\<lambda>i. map (\<lambda>j. \<lparr> name = names_at (names st) j, prob = raw_prob (buffer i) j,
                                  box = bbox (buffer i) \<rparr>)
                          (filter (\<lambda>j. gt0 (raw_prob (buffer i) j)) [0..<meta_classes st]))
                 [0..<nat len]) \<and>
   ((\<forall>j<meta_classes st. \<not> gt0 (raw_prob (buffer 0) j)) \<longrightarrow> bufferToDetections st buffer 1 = []) \<and>
   (j1 < j2 \<and> j2 < meta_classes st \<and>
    (\<forall>j<meta_classes st. gt0 (raw_prob (buffer 0) j) \<longleftrightarrow> (j = j1 \<or> j = j2)) \<longrightarrow>
      bufferToDetections st buffer 1 =
        [\<lparr> name = names_at (names st) j1, prob = raw_prob (buffer 0) j1, box = bbox (buffer 0) \<rparr>,
         \<lparr> name = names_at (names st) j2, prob = raw_prob (buffer 0) j2, box = bbox (buffer 0) \<rparr>])"
proof (intro conjI impI)
  show "bufferToDetections st buffer len =
     concat (map (\<lambda>i. map (\<lambda>j. \<lparr> name = names_at (names st) j, prob = raw_prob (buffer i) j,
                                  box = bbox (buffer i) \<rparr>)
                          (filter (\<lambda>j. gt0 (raw_prob (buffer i) j)) [0..<meta_classes st]))
                 [0..<nat len])"
    by (simp add: bufferToDetections_concat decode_record_def)
next
  assume "\<forall>j<meta_classes st. \<not> gt0 (raw_prob (buffer 0) j)"
  then have "filter (\<lambda>j. gt0 (raw_prob (buffer 0) j)) [0..<meta_classes st] = []"
    by (simp add: filter_empty_conv)
  then show "bufferToDetections st buffer 1 = []"
    by (simp add: bufferToDetections_concat decode_record_def)
next
  assume a: "j1 < j2 \<and> j2 < meta_classes st \<and>
    (\<forall>j<meta_classes st. gt0 (raw_prob (buffer 0) j) \<longleftrightarrow> (j = j1 \<or> j = j2))"
  then have "filter (\<lambda>j. gt0 (raw_prob (buffer 0) j)) [0..<meta_classes st] = [j1, j2]"
    by (intro filter_two) auto
  then show "bufferToDetections st buffer 1 =
        [\<lparr> name = names_at (names st) j1, prob = raw_prob (buffer 0) j1, box = bbox (buffer 0) \<rparr>,
         \<lparr> name = names_at (names st) j2, prob = raw_prob (buffer 0) j2, box = bbox (buffer 0) \<rparr>]"
    by (simp add: bufferToDetections_concat decode_record_def)
qed

theorem decode_entries_witness:
  "bufferToDetections example_state example_buffer 1 =
     [\<lparr> name = Some ''a'', prob = Fin (3 / 4), box = example_box \<rparr>,
      \<lparr> name = Some ''c'', prob = Fin (3 / 4), box = example_box \<rparr>] \<and>
   bufferToDetections example_state (\<lambda>i. \<lparr> bbox = example_box, raw_prob = (\<lambda>j. Fin 0) \<rparr>) 1 = []"
proof -
  let ?zero = "\<lambda>i::nat. \<lparr> bbox = example_box, raw_prob = (\<lambda>j::nat. Fin 0) \<rparr>"
  have two: "(0::nat) < 2 \<and> 2 < meta_classes example_state \<and>
      (\<forall>j<meta_classes example_state. gt0 (raw_prob (example_buffer 0) j) \<longleftrightarrow> (j = 0 \<or> j = 2))"
    by (auto simp: example_state_def example_buffer_def)
  have none: "\<forall>j<meta_classes example_state. \<not> gt0 (raw_prob (?zero 0) j)"
    by simp
  from decode_entries [of example_state example_buffer 1 0 2] two
  have a: "bufferToDetections example_state example_buffer 1 =
      [\<lparr> name = names_at (names example_state) 0, prob = raw_prob (example_buffer 0) 0,
         box = bbox (example_buffer 0) \<rparr>,
       \<lparr> name = names_at (names example_state) 2, prob = raw_prob (example_buffer 0) 2,
         box = bbox (example_buffer 0) \<rparr>]"
    by blast
  from decode_entries [of example_state ?zero 1 0 2] none
  have b: "bufferToDetections example_state ?zero 1 = []"
    by blast
  show ?thesis
    using a b by (simp add: example_state_def example_buffer_def names_at_def)
qed

section \<open>One detect call: result, trace and ring\<close>

lemma bufferToDetections_upd [simp]:
  "bufferToDetections (st\<lparr>calls := c\<rparr>) = bufferToDetections st"
  "bufferToDetections (st\<lparr>memory := m\<rparr>) = bufferToDetections st"
  "bufferToDetections (st\<lparr>memoryIndex := i\<rparr>) = bufferToDetections st"
  "bufferToDetections (st\<lparr>memorySlotsUsed := u\<rparr>) = bufferToDetections st"
  "bufferToDetections (st\<lparr>memoryCount := k\<rparr>) = bufferToDetections st"
  by (simp_all add: bufferToDetections_concat decode_record_def fun_eq_iff)

lemma detectAsync_inner_ok:
  assumes "predict_res n = None" "remember_res n = None"
    "avg_res n = Inr (dets, num)" "nms_res n = Inr dets'"
  shows "detectAsync_inner n im th hi nm st =
     (Inr (bufferToDetections st dets' num),
      st\<lparr> calls := calls st @
             [NetworkPredictImage, NetworkRememberMemory (memoryIndex st),
              NetworkAvgPredictions (min (memorySlotsUsed st + 1) (memoryCount st))
                (img_w im) (img_h im) th hi,
              DoNmsObj num (meta_classes st) nm, FreeDetections num],
          memory := memory st @ [memoryIndex st],
          memoryIndex := js_rem (js_add (memoryIndex st) 1) (memoryCount st),
          memorySlotsUsed := min (memorySlotsUsed st + 1) (memoryCount st) \<rparr>)"
  using assms
  by (simp add: detectAsync_inner_def rememberNet_def avgPrediction_def Let_def)

text \<open>The ring part after a detect call: untouched, or advanced by one successful remember.\<close>

lemma ring_of_calls [simp]: "ring_of (st\<lparr>calls := c\<rparr>) = ring_of st"
  by (simp add: ring_of_def)

lemma ring_of_rememberNet_calls:
  "ring_of (snd (rememberNet r (st\<lparr>calls := c\<rparr>))) = ring_of (snd (rememberNet r st))"
  by (cases r) (simp_all add: rememberNet_def ring_of_def Let_def)

lemma rememberNet_fail_ring: "ring_of (snd (rememberNet (Some e) st)) = ring_of st"
  by (simp add: rememberNet_def ring_of_def Let_def)

lemma detectAsync_inner_ring:
  "ring_of (snd (detectAsync_inner n im th hi nm st)) =
     (if predict_res n = None \<and> remember_res n = None
      then ring_of (snd (rememberNet None st)) else ring_of st)"
  by (cases "remember_res n")
     (auto simp: detectAsync_inner_def rememberNet_def avgPrediction_def Let_def ring_of_def
       split: option.splits sum.splits prod.splits)

lemma detectFromImageAsync_ring:
  "ring_of (snd (detectFromImageAsync n im config st)) =
     (if predict_res n = None \<and> remember_res n = None
      then ring_of (snd (rememberNet None st)) else ring_of st)"
  by (simp add: detectFromImageAsync_def detectAsync_inner_ring split: prod.splits)

lemma detectAsync_ring:
  "ring_of (snd (detectAsync n im config st)) =
     (if succeeded (image_res n) \<and> predict_res n = None \<and> remember_res n = None
      then ring_of (snd (rememberNet None st)) else ring_of st)"
proof -
  obtain th hi nm where t: "thresholds config = (th, hi, nm)" by (cases "thresholds config") auto
  show ?thesis
  proof (cases "image_res n")
    case (Inl e)
    then show ?thesis using t
      by (cases im) (simp_all add: detectAsync_def getImageFromPathAsync_def
          RGBBufferToImageAsync_def Let_def)
  next
    case (Inr imageData)
    define st1 where "st1 = (case im of
        Path p \<Rightarrow> st\<lparr>calls := calls st @ [LoadImageColor p]\<rparr>
      | BufferImage bi \<Rightarrow> st\<lparr>calls := calls st @
          [FloatToImage (buf_w bi) (buf_h bi) (buf_c bi)
             (rgbToDarknet (buf_b bi) (buf_w bi) (buf_h bi) (buf_c bi))]\<rparr>)"
    obtain res st2 where inner: "detectAsync_inner n imageData th hi nm st1 = (res, st2)"
      by (cases "detectAsync_inner n imageData th hi nm st1") auto
    have "ring_of (snd (detectAsync_inner n imageData th hi nm st1)) =
        (if predict_res n = None \<and> remember_res n = None
         then ring_of (snd (rememberNet None st)) else ring_of st)"
      unfolding st1_def
      by (cases im) (simp_all add: detectAsync_inner_ring ring_of_rememberNet_calls)
    then have r: "ring_of st2 =
        (if predict_res n = None \<and> remember_res n = None
         then ring_of (snd (rememberNet None st)) else ring_of st)"
      by (simp add: inner)
    have "ring_of (snd (detectAsync n im config st)) = ring_of st2"
      using t Inr inner unfolding st1_def
      by (cases im; cases res; cases "free_image_res n")
         (simp_all add: detectAsync_def getImageFromPathAsync_def RGBBufferToImageAsync_def Let_def)
    then show ?thesis using r Inr by simp
  qed
qed

lemma detectAsync_inner_calls:
  "calls (snd (detectAsync_inner n im th hi nm st)) = calls st @ inner_trace n im th hi nm st"
  by (simp add: detectAsync_inner_def inner_trace_def rememberNet_def avgPrediction_def Let_def
      split: option.splits sum.splits prod.splits)

lemma detectAsync_inner_result:
  "succeeded (fst (detectAsync_inner n im th hi nm st)) = inner_ok n"
  by (simp add: detectAsync_inner_def inner_ok_def rememberNet_def avgPrediction_def Let_def
      split: option.splits sum.splits prod.splits)

lemma detectAsync_inner_calls_upd:
  "calls (snd (detectAsync_inner n im th hi nm (st\<lparr>calls := c\<rparr>))) = c @ inner_trace n im th hi nm st"
  by (simp add: detectAsync_inner_calls inner_trace_def split: sum.splits prod.splits)

lemma detectAsync_calls:
  "calls (snd (detectAsync n im config st)) = calls st @ detect_trace n im config st"
proof -
  obtain th hi nm where t: "thresholds config = (th, hi, nm)" by (cases "thresholds config") auto
  show ?thesis
  proof (cases "image_res n")
    case (Inl e)
    then show ?thesis using t
      by (cases im) (simp_all add: detectAsync_def detect_trace_def load_call_def
          getImageFromPathAsync_def RGBBufferToImageAsync_def Let_def)
  next
    case (Inr imageData)
    define st1 where "st1 = st\<lparr>calls := calls st @ [load_call im]\<rparr>"
    obtain res st2 where inner: "detectAsync_inner n imageData th hi nm st1 = (res, st2)"
      by (cases "detectAsync_inner n imageData th hi nm st1") auto
    have c2: "calls st2 = calls st @ load_call im # inner_trace n imageData th hi nm st"
      using detectAsync_inner_calls_upd [where st = st and c = "calls st @ [load_call im]"
          and n = n and im = imageData and th = th and hi = hi and nm = nm]
      by (simp add: inner st1_def [symmetric])
    have ok: "succeeded res = inner_ok n"
      using detectAsync_inner_result [of n imageData th hi nm st1] by (simp add: inner)
    show ?thesis
      using t Inr inner c2 ok unfolding st1_def
      by (cases im; cases res; cases "free_image_res n")
         (simp_all add: detectAsync_def detect_trace_def load_call_def
           getImageFromPathAsync_def RGBBufferToImageAsync_def Let_def)
  qed
qed

lemma new_calls_detectAsync:
  "new_calls st (snd (detectAsync n im config st)) = detect_trace n im config st"
  by (simp add: new_calls_def detectAsync_calls)

lemma detectAsync_result:
  "succeeded (fst (detectAsync n im config st)) =
     (native_ok n \<and> ((case im of Path p \<Rightarrow> True | BufferImage bi \<Rightarrow> False) \<longrightarrow> free_image_res n = None))"
proof -
  obtain th hi nm where t: "thresholds config = (th, hi, nm)" by (cases "thresholds config") auto
  show ?thesis
  proof (cases "image_res n")
    case (Inl e)
    then show ?thesis using t
      by (cases im) (simp_all add: detectAsync_def native_ok_def
          getImageFromPathAsync_def RGBBufferToImageAsync_def Let_def)
  next
    case (Inr imageData)
    define st1 where "st1 = st\<lparr>calls := calls st @ [load_call im]\<rparr>"
    obtain res st2 where inner: "detectAsync_inner n imageData th hi nm st1 = (res, st2)"
      by (cases "detectAsync_inner n imageData th hi nm st1") auto
    have ok: "succeeded res = inner_ok n"
      using detectAsync_inner_result [of n imageData th hi nm st1] by (simp add: inner)
    show ?thesis
      using t Inr inner ok unfolding st1_def
      by (cases im; cases res; cases "free_image_res n")
         (simp_all add: detectAsync_def native_ok_def inner_ok_def load_call_def
           getImageFromPathAsync_def RGBBufferToImageAsync_def Let_def)
  qed
qed

section \<open>Frees and thresholds of a detect call\<close>

lemma detectFromImageAsync_calls:
  "new_calls st (snd (detectFromImageAsync n im config st)) =
     (case thresholds config of (th, hi, nm) \<Rightarrow> inner_trace n im th hi nm st)"
  by (simp add: detectFromImageAsync_def new_calls_def detectAsync_inner_calls split: prod.splits)

lemma passed_inner_trace:
  "inner_ok n \<Longrightarrow> concat (map passed_on (inner_trace n im th hi nm st)) = [th, hi, nm]"
  by (cases "avg_res n"; cases "nms_res n") (auto simp: inner_ok_def inner_trace_def)

lemma passed_detect_trace:
  "native_ok n \<Longrightarrow>
   concat (map passed_on (detect_trace n im config st)) =
     (case thresholds config of (th, hi, nm) \<Rightarrow> [th, hi, nm])"
proof -
  assume ok: "native_ok n"
  then have i: "inner_ok n" by (simp add: native_ok_def inner_ok_def)
  obtain th hi nm where t: "thresholds config = (th, hi, nm)" by (cases "thresholds config") auto
  from ok obtain imageData where im: "image_res n = Inr imageData"
    by (cases "image_res n") (auto simp: native_ok_def)
  show ?thesis
    using passed_inner_trace [OF i, of imageData th hi nm st] t im
    by (cases im) (simp_all add: detect_trace_def load_call_def)
qed

lemma count_inner_trace:
  "inner_ok n \<Longrightarrow>
   count_calls is_free_detections (inner_trace n im th hi nm st) = 1 \<and>
   count_calls is_avg (inner_trace n im th hi nm st) = 1 \<and>
   count_calls is_free_image (inner_trace n im th hi nm st) = 0 \<and>
   count_calls is_load_image (inner_trace n im th hi nm st) = 0"
  by (cases "avg_res n"; cases "nms_res n") (auto simp: inner_ok_def inner_trace_def count_calls_def)

lemma count_inner_trace_fail:
  "\<not> inner_ok n \<Longrightarrow>
   count_calls is_free_detections (inner_trace n im th hi nm st) = 0 \<and>
   count_calls is_free_image (inner_trace n im th hi nm st) = 0"
  by (cases "avg_res n"; cases "nms_res n") (auto simp: inner_ok_def inner_trace_def count_calls_def)

lemma count_calls_append [simp]: "count_calls p (xs @ ys) = count_calls p xs + count_calls p ys"
  by (simp add: count_calls_def)

lemma count_calls_Cons [simp]: "count_calls p (x # xs) = (if p x then 1 else 0) + count_calls p xs"
  by (simp add: count_calls_def)

lemma count_calls_Nil [simp]: "count_calls p [] = 0"
  by (simp add: count_calls_def)

text \<open>
  C1 (as the code has it). In a \<open>detectAsync\<close> call whose native steps all succeed, the
  detection array returned by the averaging is freed by exactly one \<open>free_detections\<close>
  call, and an image loaded from a path by exactly one \<open>free_image\<close> call (an image built
  from a caller's buffer is not freed natively). When a native step rejects, the call rejects
  and neither free call is made.
\<close>

theorem frees_on_success:
  "(native_ok n \<longrightarrow>
      count_calls is_avg (new_calls st (snd (detectAsync n im config st))) = 1 \<and>
      count_calls is_free_detections (new_calls st (snd (detectAsync n im config st))) = 1 \<and>
      count_calls is_load_image (new_calls st (snd (detectAsync n im config st))) =
        (case im of Path p \<Rightarrow> 1 | BufferImage bi \<Rightarrow> 0) \<and>
      count_calls is_free_image (new_calls st (snd (detectAsync n im config st))) =
        (case im of Path p \<Rightarrow> 1 | BufferImage bi \<Rightarrow> 0)) \<and>
   (\<not> native_ok n \<longrightarrow>
      \<not> succeeded (fst (detectAsync n im config st)) \<and>
      count_calls is_free_detections (new_calls st (snd (detectAsync n im config st))) = 0 \<and>
      count_calls is_free_image (new_calls st (snd (detectAsync n im config st))) = 0)"
proof (intro conjI impI)
  assume ok: "native_ok n"
  then have i: "inner_ok n" by (simp add: native_ok_def inner_ok_def)
  obtain th hi nm where t: "thresholds config = (th, hi, nm)" by (cases "thresholds config") auto
  from ok obtain imageData where im: "image_res n = Inr imageData"
    by (cases "image_res n") (auto simp: native_ok_def)
  note c = count_inner_trace [OF i, of imageData th hi nm st]
  show "count_calls is_avg (new_calls st (snd (detectAsync n im config st))) = 1"
    using c t im i by (cases im) (simp_all add: new_calls_detectAsync detect_trace_def load_call_def)
  show "count_calls is_free_detections (new_calls st (snd (detectAsync n im config st))) = 1"
    using c t im i by (cases im) (simp_all add: new_calls_detectAsync detect_trace_def load_call_def)
  show "count_calls is_load_image (new_calls st (snd (detectAsync n im config st))) =
        (case im of Path p \<Rightarrow> 1 | BufferImage bi \<Rightarrow> 0)"
    using c t im i by (cases im) (simp_all add: new_calls_detectAsync detect_trace_def load_call_def)
  show "count_calls is_free_image (new_calls st (snd (detectAsync n im config st))) =
        (case im of Path p \<Rightarrow> 1 | BufferImage bi \<Rightarrow> 0)"
    using c t im i by (cases im) (simp_all add: new_calls_detectAsync detect_trace_def load_call_def)
next
  assume nok: "\<not> native_ok n"
  show "\<not> succeeded (fst (detectAsync n im config st))"
    using nok by (simp add: detectAsync_result)
  obtain th hi nm where t: "thresholds config = (th, hi, nm)" by (cases "thresholds config") auto
  have f: "count_calls is_free_detections (detect_trace n im config st) = 0 \<and>
           count_calls is_free_image (detect_trace n im config st) = 0"
  proof (cases "image_res n")
    case (Inl e)
    then show ?thesis by (cases im) (simp_all add: detect_trace_def load_call_def)
  next
    case (Inr imageData)
    with nok have i: "\<not> inner_ok n" by (simp add: native_ok_def inner_ok_def)
    show ?thesis
      using count_inner_trace_fail [OF i, of imageData th hi nm st] t Inr i
      by (cases im) (simp_all add: detect_trace_def load_call_def)
  qed
  show "count_calls is_free_detections (new_calls st (snd (detectAsync n im config st))) = 0"
    using f by (simp add: new_calls_detectAsync)
  show "count_calls is_free_image (new_calls st (snd (detectAsync n im config st))) = 0"
    using f by (simp add: new_calls_detectAsync)
qed

lemma native_success_ok: "native_ok native_success"
  by (simp add: native_ok_def native_success_def)

lemma native_nms_rejects_not_ok: "\<not> native_ok native_nms_rejects"
  by (simp add: native_ok_def native_nms_rejects_def native_success_def)

theorem frees_on_success_witness:
  "count_calls is_free_detections
     (new_calls example_state (snd (detectAsync native_success (Path ''dog.jpg'') None example_state))) = 1 \<and>
   count_calls is_free_image
     (new_calls example_state (snd (detectAsync native_success (Path ''dog.jpg'') None example_state))) = 1 \<and>
   count_calls is_free_detections
     (new_calls example_state (snd (detectAsync native_nms_rejects (Path ''dog.jpg'') None example_state))) = 0"
  using frees_on_success [of native_success example_state "Path ''dog.jpg''" None]
    frees_on_success [of native_nms_rejects example_state "Path ''dog.jpg''" None]
    native_success_ok native_nms_rejects_not_ok
  by simp

text \<open>
  The claim as stated (a free on every exit path) fails: when the suppression rejects, the
  image has been loaded and the detection array returned, and neither is freed.
\<close>

theorem leak_on_rejection_counterexample:
  "succeeded (image_res native_nms_rejects) \<and> succeeded (avg_res native_nms_rejects) \<and>
   count_calls is_load_image
     (new_calls example_state (snd (detectAsync native_nms_rejects (Path ''dog.jpg'') None example_state))) = 1 \<and>
   count_calls is_avg
     (new_calls example_state (snd (detectAsync native_nms_rejects (Path ''dog.jpg'') None example_state))) = 1 \<and>
   count_calls is_free_image
     (new_calls example_state (snd (detectAsync native_nms_rejects (Path ''dog.jpg'') None example_state))) = 0 \<and>
   count_calls is_free_detections
     (new_calls example_state (snd (detectAsync native_nms_rejects (Path ''dog.jpg'') None example_state))) = 0"
  by (simp add: detectAsync_def detectAsync_inner_def getImageFromPathAsync_def rememberNet_def
      avgPrediction_def thresholds_def native_nms_rejects_def native_success_def new_calls_def
      example_state_def Let_def)

text \<open>
  C8. With no config object, or with a threshold field left out, the value used for that
  field is 0.5 (confidence, hierarchy and NMS threshold alike); the values so chosen are
  the ones handed to the native averaging and suppression calls.
\<close>

theorem default_thresholds:
  "thresholds None = (Fin (1 / 2), Fin (1 / 2), Fin (1 / 2)) \<and>
   (thresh c = None \<longrightarrow> fst (thresholds (Some c)) = Fin (1 / 2)) \<and>
   (hier_thresh c = None \<longrightarrow> fst (snd (thresholds (Some c))) = Fin (1 / 2)) \<and>
   (nms c = None \<longrightarrow> snd (snd (thresholds (Some c))) = Fin (1 / 2)) \<and>
   (native_ok n \<longrightarrow>
      concat (map passed_on (new_calls st (snd (detectAsync n im config st)))) =
        [fst (thresholds config), fst (snd (thresholds config)), snd (snd (thresholds config))])"
  using passed_detect_trace [of n im config st]
  by (auto simp: thresholds_def Let_def new_calls_detectAsync split: prod.splits)

theorem default_thresholds_witness:
  "concat (map passed_on
     (new_calls example_state (snd (detectAsync native_success (Path ''dog.jpg'') None example_state)))) =
     [Fin (1 / 2), Fin (1 / 2), Fin (1 / 2)] \<and>
   fst (thresholds (Some \<lparr> thresh = None, hier_thresh = Some (Fin (1 / 4)), nms = None \<rparr>)) = Fin (1 / 2)"
  using default_thresholds [of "\<lparr> thresh = None, hier_thresh = Some (Fin (1 / 4)), nms = None \<rparr>"
      native_success example_state "Path ''dog.jpg''" None]
    native_success_ok
  by simp

text \<open>
  C10. A threshold passed explicitly as 0 is falsy and is replaced by the default 0.5, in
  \<open>detectAsync\<close> and in \<open>detectFromImageAsync\<close>; the native calls receive 0.5.
\<close>

theorem zero_threshold_is_default:
  "(thresh c = Some (Fin 0) \<longrightarrow> fst (thresholds (Some c)) = Fin (1 / 2)) \<and>
   (hier_thresh c = Some (Fin 0) \<longrightarrow> fst (snd (thresholds (Some c))) = Fin (1 / 2)) \<and>
   (nms c = Some (Fin 0) \<longrightarrow> snd (snd (thresholds (Some c))) = Fin (1 / 2)) \<and>
   (native_ok n \<longrightarrow>
      concat (map passed_on (new_calls st (snd (detectAsync n im (Some c) st)))) =
        [fst (thresholds (Some c)), fst (snd (thresholds (Some c))), snd (snd (thresholds (Some c)))]) \<and>
   (inner_ok n \<longrightarrow>
      concat (map passed_on (new_calls st (snd (detectFromImageAsync n img (Some c) st)))) =
        [fst (thresholds (Some c)), fst (snd (thresholds (Some c))), snd (snd (thresholds (Some c)))])"
  using passed_detect_trace [of n im "Some c" st] passed_inner_trace [of n img _ _ _ st]
  by (auto simp: thresholds_def Let_def new_calls_detectAsync detectFromImageAsync_calls
      split: prod.splits)

theorem zero_threshold_is_default_witness:
  "concat (map passed_on
     (new_calls example_state
        (snd (detectAsync native_success (Path ''dog.jpg'')
               (Some \<lparr> thresh = Some (Fin 0), hier_thresh = Some (Fin 0), nms = Some (Fin 0) \<rparr>)
               example_state)))) =
     [Fin (1 / 2), Fin (1 / 2), Fin (1 / 2)] \<and>
   concat (map passed_on
     (new_calls example_state
        (snd (detectFromImageAsync native_success example_image
               (Some \<lparr> thresh = Some (Fin 0), hier_thresh = Some (Fin 0), nms = Some (Fin 0) \<rparr>)
               example_state)))) =
     [Fin (1 / 2), Fin (1 / 2), Fin (1 / 2)]"
  using zero_threshold_is_default
      [of "\<lparr> thresh = Some (Fin 0), hier_thresh = Some (Fin 0), nms = Some (Fin 0) \<rparr>"
        native_success example_state "Path ''dog.jpg''" example_image]
    native_success_ok
  by (simp add: inner_ok_def native_ok_def)

section \<open>What every call keeps true of the ring\<close>

lemma slots_filled_iff:
  "slots_filled st \<longleftrightarrow> (\<forall>s. 0 \<le> s \<and> s < memorySlotsUsed st \<longrightarrow> JInt s \<in> set (memory st))"
  by (auto simp: slots_filled_def)

lemma ring_steady_cong: "ring_of s = ring_of t \<Longrightarrow> ring_steady s = ring_steady t"
  by (auto simp: ring_of_def ring_steady_def slots_filled_iff split: jsint.splits)

lemma ring_inv_cong: "ring_of s = ring_of t \<Longrightarrow> ring_inv s = ring_inv t"
  by (auto simp: ring_of_def ring_inv_def split: jsint.splits)

lemma ring_steady_makeMemory: "ring_steady (makeMemory st)"
  by (simp add: ring_steady_def makeMemory_def slots_filled_iff)

lemma ring_steady_resetMemory: "ring_steady (resetMemory arg st)"
  by (simp add: resetMemory_def Let_def ring_steady_makeMemory)

lemma ring_steady_remember_ok:
  assumes "ring_steady st"
  shows "ring_steady (snd (rememberNet None st))"
proof (cases "1 \<le> memoryCount st")
  case True
  with assms obtain i where i: "memoryIndex st = JInt i" "0 \<le> i" "i < memoryCount st"
      "memorySlotsUsed st < memoryCount st \<longrightarrow> i = memorySlotsUsed st"
      and u: "memorySlotsUsed st \<le> memoryCount st" and f: "slots_filled st"
    by (cases "memoryIndex st") (auto simp: ring_steady_def)
  have m: "js_rem (JInt (i + 1)) (memoryCount st) = JInt ((i + 1) mod memoryCount st)"
    using i True by (intro js_rem_nonneg) auto
  show ?thesis
  proof (cases "memorySlotsUsed st < memoryCount st")
    case lt: True
    then have e: "i = memorySlotsUsed st" using i by simp
    show ?thesis
      using True i u f lt e m
      by (auto simp: ring_steady_def rememberNet_def Let_def slots_filled_iff min_def)
  next
    case False
    then have e: "memorySlotsUsed st = memoryCount st" using u by simp
    show ?thesis
      using True i f e m
      by (auto simp: ring_steady_def rememberNet_def Let_def slots_filled_iff min_def)
  qed
next
  case False
  then show ?thesis using assms
    by (auto simp: ring_steady_def rememberNet_def Let_def min_def)
qed

lemma ring_steady_remember: "ring_steady st \<Longrightarrow> ring_steady (snd (rememberNet r st))"
proof (cases r)
  case None
  then show "ring_steady st \<Longrightarrow> ?thesis" by (simp add: ring_steady_remember_ok)
next
  case (Some e)
  then show "ring_steady st \<Longrightarrow> ?thesis"
    using ring_steady_cong [OF rememberNet_fail_ring [of e st]] by simp
qed

lemma ring_steady_if:
  assumes "ring_of t = (if c then ring_of a else ring_of b)" "ring_steady a" "ring_steady b"
  shows "ring_steady t"
  using assms ring_steady_cong [of t a] ring_steady_cong [of t b] by (cases c) simp_all

lemma ring_steady_apply_op: "ring_steady st \<Longrightarrow> ring_steady (apply_op op st)"
proof (cases op)
  case (OpRememberNet r)
  then show "ring_steady st \<Longrightarrow> ?thesis" by (simp add: ring_steady_remember)
next
  case (OpResetMemory arg)
  then show "ring_steady st \<Longrightarrow> ?thesis" by (simp add: ring_steady_resetMemory)
next
  case (OpDetect n im config)
  assume s: "ring_steady st"
  have "ring_steady (snd (detectAsync n im config st))"
    by (rule ring_steady_if [OF detectAsync_ring ring_steady_remember_ok [OF s] s])
  then show ?thesis using OpDetect by simp
next
  case (OpDetectFromImage n im config)
  assume s: "ring_steady st"
  have "ring_steady (snd (detectFromImageAsync n im config st))"
    by (rule ring_steady_if [OF detectFromImageAsync_ring ring_steady_remember_ok [OF s] s])
  then show ?thesis using OpDetectFromImage by simp
qed

lemma ring_steady_run: "ring_steady st \<Longrightarrow> ring_steady (run ops st)"
  unfolding run_def by (induction ops arbitrary: st) (simp_all add: ring_steady_apply_op)

lemma ring_steady_filled: "ring_steady st \<Longrightarrow> slots_filled st"
  by (cases "1 \<le> memoryCount st") (auto simp: ring_steady_def slots_filled_iff)

lemma constructor_Inr:
  assumes "constructor e config = (tr, Inr st0)"
  shows "\<exists>st. st0 = makeMemory st \<and> meta_classes st = length (names st) \<and>
           (\<forall>cfg. config = Some cfg \<longrightarrow>
              memoryCount st = (case cfg_memory cfg of None \<Rightarrow> 3 | Some m \<Rightarrow> if m = 0 then 3 else m))"
  using assms
  by (auto simp: constructor_def Let_def split: option.splits if_splits sum.splits)

section \<open>Averaging over the populated slots\<close>

lemma detectAsync_inner_names:
  "names (snd (detectAsync_inner n im th hi nm st)) = names st \<and>
   meta_classes (snd (detectAsync_inner n im th hi nm st)) = meta_classes st"
  by (simp add: detectAsync_inner_def rememberNet_def avgPrediction_def Let_def
      split: option.splits sum.splits prod.splits)

lemma detectAsync_names:
  "names (snd (detectAsync n im config st)) = names st \<and>
   meta_classes (snd (detectAsync n im config st)) = meta_classes st"
proof -
  obtain th hi nm where t: "thresholds config = (th, hi, nm)" by (cases "thresholds config") auto
  show ?thesis
  proof (cases "image_res n")
    case (Inl e)
    then show ?thesis using t
      by (cases im) (simp_all add: detectAsync_def getImageFromPathAsync_def
          RGBBufferToImageAsync_def Let_def)
  next
    case (Inr imageData)
    define st1 where "st1 = st\<lparr>calls := calls st @ [load_call im]\<rparr>"
    obtain res st2 where inner: "detectAsync_inner n imageData th hi nm st1 = (res, st2)"
      by (cases "detectAsync_inner n imageData th hi nm st1") auto
    have "names (snd (detectAsync_inner n imageData th hi nm st1)) = names st1 \<and>
        meta_classes (snd (detectAsync_inner n imageData th hi nm st1)) = meta_classes st1"
      by (rule detectAsync_inner_names)
    then have n2: "names st2 = names st \<and> meta_classes st2 = meta_classes st"
      unfolding inner by (simp add: st1_def)
    show ?thesis
      using t Inr inner n2 unfolding st1_def
      by (cases im; cases res; cases "free_image_res n")
         (simp_all add: detectAsync_def load_call_def
           getImageFromPathAsync_def RGBBufferToImageAsync_def Let_def)
  qed
qed

lemma names_apply_op:
  "names (apply_op op st) = names st \<and> meta_classes (apply_op op st) = meta_classes st"
proof (cases op)
  case (OpRememberNet r)
  then show ?thesis by (cases r) (simp_all add: rememberNet_def Let_def)
next
  case (OpResetMemory arg)
  then show ?thesis by (simp add: resetMemory_def makeMemory_def Let_def)
next
  case (OpDetect n im config)
  then show ?thesis by (simp add: detectAsync_names)
next
  case (OpDetectFromImage n im config)
  then show ?thesis
    by (simp add: detectFromImageAsync_def detectAsync_inner_names split: prod.splits)
qed

lemma names_run:
  "names (run ops st) = names st \<and> meta_classes (run ops st) = meta_classes st"
  unfolding run_def by (induction ops arbitrary: st) (simp_all add: names_apply_op)

lemma well_formed_decode:
  assumes "meta_classes st = length (names st)"
  shows "well_formed st (bufferToDetections st buffer len)"
  using assms
  by (auto simp: well_formed_def bufferToDetections_concat decode_record_def names_at_def)

lemma detectAsync_ok_result:
  assumes "native_ok n" "(case im of Path p \<Rightarrow> True | BufferImage bi \<Rightarrow> False) \<longrightarrow> free_image_res n = None"
  shows "\<exists>dets' d num. nms_res n = Inr dets' \<and> avg_res n = Inr (d, num) \<and>
           fst (detectAsync n im config st) = Inr (bufferToDetections st dets' num)"
proof -
  obtain th hi nm where t: "thresholds config = (th, hi, nm)" by (cases "thresholds config") auto
  from assms obtain imageData where im: "image_res n = Inr imageData"
    by (cases "image_res n") (auto simp: native_ok_def)
  from assms obtain d num where a: "avg_res n = Inr (d, num)"
    by (cases "avg_res n") (auto simp: native_ok_def)
  from assms obtain dets' where s: "nms_res n = Inr dets'"
    by (cases "nms_res n") (auto simp: native_ok_def)
  have p: "predict_res n = None" "remember_res n = None"
    using assms by (simp_all add: native_ok_def)
  have "fst (detectAsync n im config st) = Inr (bufferToDetections st dets' num)"
    using t im assms(2) detectAsync_inner_ok [OF p a s]
    by (cases im)
       (simp_all add: detectAsync_def getImageFromPathAsync_def RGBBufferToImageAsync_def Let_def)
  then show ?thesis using a s by blast
qed

lemma avg_slots_inner_trace:
  "concat (map avg_slots (inner_trace n im th hi nm st)) =
     (if predict_res n = None \<and> remember_res n = None
      then [min (memorySlotsUsed st + 1) (memoryCount st)] else [])"
  by (cases "avg_res n"; cases "nms_res n") (auto simp: inner_trace_def)

lemma avg_slots_detect_trace:
  "concat (map avg_slots (detect_trace n im config st)) =
     (if succeeded (image_res n) \<and> predict_res n = None \<and> remember_res n = None
      then [min (memorySlotsUsed st + 1) (memoryCount st)] else [])"
proof -
  obtain th hi nm where t: "thresholds config = (th, hi, nm)" by (cases "thresholds config") auto
  show ?thesis
    using t avg_slots_inner_trace [of n _ th hi nm st]
    by (cases "image_res n"; cases im) (simp_all add: detect_trace_def load_call_def)
qed

lemma used_after_detectFromImage:
  "predict_res n = None \<and> remember_res n = None \<Longrightarrow>
   memorySlotsUsed (snd (detectFromImageAsync n im config st)) =
     min (memorySlotsUsed st + 1) (memoryCount st)"
  using detectFromImageAsync_ring [of n im config st]
  by (simp add: ring_of_def rememberNet_def Let_def)

lemma used_after_detect:
  "succeeded (image_res n) \<and> predict_res n = None \<and> remember_res n = None \<Longrightarrow>
   memorySlotsUsed (snd (detectAsync n im config st)) = min (memorySlotsUsed st + 1) (memoryCount st)"
  using detectAsync_ring [of n im config st]
  by (simp add: ring_of_def rememberNet_def Let_def)

text \<open>
  C6. In any state a constructed detector can reach, a \<open>detectAsync\<close> call that gets as far
  as the averaging invokes it once, with a slot count equal to the populated count at that
  moment (the remember of this very call comes first, so on a fresh ring the count is
  already 1 for a positive capacity); every slot below that count has been filled since the
  ring was made, so no uninitialised slot is read. When the native steps succeed the call
  returns a list of entries, each with a positive probability and a class name of the
  detector; the list may be empty. The slot count and the filled slots are the same for
  \<open>detectFromImageAsync\<close>.
\<close>

theorem averaging_reads_filled_slots:
  assumes "constructor e config = (tr, Inr st0)"
  shows "concat (map avg_slots
           (new_calls (run ops st0) (snd (detectAsync n im cfg (run ops st0))))) =
           (if succeeded (image_res n) \<and> predict_res n = None \<and> remember_res n = None
            then [memorySlotsUsed (snd (detectAsync n im cfg (run ops st0)))] else []) \<and>
         slots_filled (snd (detectAsync n im cfg (run ops st0))) \<and>
         (native_ok n \<and>
          ((case im of Path p \<Rightarrow> True | BufferImage bi \<Rightarrow> False) \<longrightarrow> free_image_res n = None) \<longrightarrow>
            (\<exists>dets. fst (detectAsync n im cfg (run ops st0)) = Inr dets \<and>
                    well_formed (run ops st0) dets)) \<and>
         concat (map avg_slots
           (new_calls (run ops st0) (snd (detectFromImageAsync n img cfg (run ops st0))))) =
           (if predict_res n = None \<and> remember_res n = None
            then [memorySlotsUsed (snd (detectFromImageAsync n img cfg (run ops st0)))] else []) \<and>
         slots_filled (snd (detectFromImageAsync n img cfg (run ops st0)))"
proof -
  from constructor_Inr [OF assms] obtain st where
    st: "st0 = makeMemory st" "meta_classes st = length (names st)" by blast
  have s0: "ring_steady st0" using st by (simp add: ring_steady_makeMemory)
  have m0: "meta_classes st0 = length (names st0)" using st by (simp add: makeMemory_def)
  let ?st = "run ops st0"
  have s: "ring_steady ?st" using s0 by (rule ring_steady_run)
  have m: "meta_classes ?st = length (names ?st)" using m0 names_run [of ops st0] by simp
  have "ring_steady (apply_op (OpDetect n im cfg) ?st)" using s by (rule ring_steady_apply_op)
  then have f: "slots_filled (snd (detectAsync n im cfg ?st))"
    by (simp add: ring_steady_filled)
  have a: "concat (map avg_slots (new_calls ?st (snd (detectAsync n im cfg ?st)))) =
           (if succeeded (image_res n) \<and> predict_res n = None \<and> remember_res n = None
            then [memorySlotsUsed (snd (detectAsync n im cfg ?st))] else [])"
    using used_after_detect [of n im cfg ?st]
    by (simp add: new_calls_detectAsync avg_slots_detect_trace)
  have w: "native_ok n \<and>
          ((case im of Path p \<Rightarrow> True | BufferImage bi \<Rightarrow> False) \<longrightarrow> free_image_res n = None) \<longrightarrow>
            (\<exists>dets. fst (detectAsync n im cfg ?st) = Inr dets \<and> well_formed ?st dets)"
    using detectAsync_ok_result [of n im cfg ?st] well_formed_decode [OF m] by fastforce
  have "ring_steady (apply_op (OpDetectFromImage n img cfg) ?st)"
    using s by (rule ring_steady_apply_op)
  then have f': "slots_filled (snd (detectFromImageAsync n img cfg ?st))"
    by (simp add: ring_steady_filled)
  obtain th hi nm where t: "thresholds cfg = (th, hi, nm)" by (cases "thresholds cfg") auto
  have a': "concat (map avg_slots (new_calls ?st (snd (detectFromImageAsync n img cfg ?st)))) =
           (if predict_res n = None \<and> remember_res n = None
            then [memorySlotsUsed (snd (detectFromImageAsync n img cfg ?st))] else [])"
    using used_after_detectFromImage [of n img cfg ?st] t
    by (simp add: detectFromImageAsync_calls avg_slots_inner_trace)
  show ?thesis using a f w a' f' by blast
qed

theorem averaging_reads_filled_slots_witness:
  "concat (map avg_slots
     (new_calls example_state (snd (detectAsync native_success (Path ''dog.jpg'') None example_state)))) = [1] \<and>
   slots_filled (snd (detectAsync native_success (Path ''dog.jpg'') None example_state)) \<and>
   (\<exists>dets. fst (detectAsync native_success (Path ''dog.jpg'') None example_state) = Inr dets \<and>
           well_formed example_state dets)"
proof -
  have u: "memorySlotsUsed (snd (detectAsync native_success (Path ''dog.jpg'') None example_state)) = 1"
    using used_after_detect [of native_success "Path ''dog.jpg''" None example_state]
    by (simp add: native_success_def example_state_def)
  show ?thesis
    using averaging_reads_filled_slots [OF example_constructed, of "[]" native_success
        "Path ''dog.jpg''" None example_image] native_success_ok u
    by (simp add: run_def native_success_def)
qed

section \<open>The ring invariant of the data model\<close>

lemma ring_inv_makeMemory: "1 \<le> memoryCount st \<Longrightarrow> ring_inv (makeMemory st)"
  by (simp add: ring_inv_def makeMemory_def)

lemma ring_inv_remember_ok:
  assumes "ring_inv st"
  shows "ring_inv (snd (rememberNet None st))"
proof -
  from assms obtain i where i: "memoryIndex st = JInt i" "0 \<le> i" "i < memoryCount st"
    by (cases "memoryIndex st") (auto simp: ring_inv_def)
  have m: "js_rem (JInt (i + 1)) (memoryCount st) = JInt ((i + 1) mod memoryCount st)"
    using i by (intro js_rem_nonneg) auto
  show ?thesis using i m by (simp add: ring_inv_def rememberNet_def Let_def)
qed

lemma ring_inv_if:
  assumes "ring_of t = (if c then ring_of a else ring_of b)" "ring_inv a" "ring_inv b"
  shows "ring_inv t"
  using assms ring_inv_cong [of t a] ring_inv_cong [of t b] by (cases c) simp_all

lemma ring_inv_apply_op:
  assumes "ring_inv st" "capacity_ok op"
  shows "ring_inv (apply_op op st)"
proof (cases op)
  case (OpRememberNet r)
  show ?thesis
  proof (cases r)
    case None
    then show ?thesis using OpRememberNet assms by (simp add: ring_inv_remember_ok)
  next
    case (Some e)
    then show ?thesis
      using OpRememberNet assms ring_inv_cong [OF rememberNet_fail_ring [of e st]] by simp
  qed
next
  case (OpResetMemory arg)
  have c: "1 \<le> memoryCount st" using assms(1)
    by (cases "memoryIndex st") (auto simp: ring_inv_def)
  show ?thesis
    using OpResetMemory assms(2) c
    by (cases arg) (simp_all add: resetMemory_def Let_def ring_inv_makeMemory)
next
  case (OpDetect n im config)
  have "ring_inv (snd (detectAsync n im config st))"
    by (rule ring_inv_if [OF detectAsync_ring ring_inv_remember_ok [OF assms(1)] assms(1)])
  then show ?thesis using OpDetect by simp
next
  case (OpDetectFromImage n im config)
  have "ring_inv (snd (detectFromImageAsync n im config st))"
    by (rule ring_inv_if [OF detectFromImageAsync_ring ring_inv_remember_ok [OF assms(1)] assms(1)])
  then show ?thesis using OpDetectFromImage by simp
qed

lemma ring_inv_run:
  "ring_inv st \<Longrightarrow> \<forall>op \<in> set ops. capacity_ok op \<Longrightarrow> ring_inv (run ops st)"
  unfolding run_def by (induction ops arbitrary: st) (simp_all add: ring_inv_apply_op)

text \<open>
  C5 (as the code has it). From a detector constructed with a capacity that is left out, 0
  (both give 3) or positive, any sequence of remember, detect and \<open>resetMemory\<close> calls whose
  capacity argument is left out or at least 1 leads to a state with count at most the
  capacity and index in \<open>[0, capacity)\<close>.
\<close>

theorem ring_invariant_positive_capacity:
  assumes "constructor e (Some cfg) = (tr, Inr st0)"
    and "\<forall>m. cfg_memory cfg = Some m \<longrightarrow> 0 \<le> m"
    and "\<forall>op \<in> set ops. capacity_ok op"
  shows "ring_inv (run ops st0)"
proof -
  from constructor_Inr [OF assms(1)] obtain st where
    st: "st0 = makeMemory st"
      "memoryCount st = (case cfg_memory cfg of None \<Rightarrow> 3 | Some m \<Rightarrow> if m = 0 then 3 else m)"
    by blast
  have "1 \<le> memoryCount st"
    using st(2) assms(2) by (cases "cfg_memory cfg") auto
  then have "ring_inv st0" using st(1) by (simp add: ring_inv_makeMemory)
  then show ?thesis using assms(3) by (rule ring_inv_run)
qed

theorem ring_invariant_positive_capacity_witness:
  "ring_inv (run [OpRememberNet None, OpResetMemory (Some 2), OpRememberNet None,
                  OpRememberNet None, OpRememberNet None] example_state)"
  using ring_invariant_positive_capacity [OF example_constructed,
      of "[OpRememberNet None, OpResetMemory (Some 2), OpRememberNet None,
           OpRememberNet None, OpRememberNet None]"]
  by (simp add: example_config_def)

text \<open>
  The claim as stated, for any capacity the interface accepts, fails: \<open>resetMemory\<close> takes
  0 as it comes, and index 0 is not in the empty range \<open>[0, 0)\<close>; the next remember makes
  the index \<open>NaN\<close>. With capacity -2 the index after one remember is 1.
\<close>

theorem zero_capacity_counterexample:
  "constructor example_env (Some example_config) = (calls example_state, Inr example_state) \<and>
   \<not> ring_inv (run [OpResetMemory (Some 0)] example_state) \<and>
   memoryIndex (run [OpResetMemory (Some 0), OpRememberNet None] example_state) = JNaN \<and>
   memoryIndex (run [OpResetMemory (Some (- 2)), OpRememberNet None] example_state) = JInt 1"
  by (simp add: constructor_def example_env_def example_config_def example_state_def
      makeMemory_def resetMemory_def rememberNet_def run_def ring_inv_def Let_def)

section \<open>Constructor checks\<close>

lemma constructor_missing:
  "config_missing config \<Longrightarrow> fst (constructor e config) = [] \<and> \<not> succeeded (snd (constructor e config))"
  by (auto simp: constructor_def config_missing_def Let_def split: option.splits sum.splits)

lemma constructor_unreadable:
  "\<not> config_missing (Some cfg) \<Longrightarrow> \<not> names_available e cfg \<Longrightarrow>
   constructor e (Some cfg) = ([], Inl FileError)"
  by (auto simp: constructor_def config_missing_def names_available_def Let_def
      split: option.splits sum.splits)

lemma constructor_proceeds:
  "\<not> config_missing (Some cfg) \<Longrightarrow> names_available e cfg \<Longrightarrow>
   hd (fst (constructor e (Some cfg))) = OpenLibrary \<and> fst (constructor e (Some cfg)) \<noteq> [] \<and>
   (library_loads e \<longrightarrow> succeeded (snd (constructor e (Some cfg))))"
  by (auto simp: constructor_def config_missing_def names_available_def Let_def makeMemory_def
      split: option.splits sum.splits)

text \<open>
  C9 (as the code has it). When the config object is absent, or names and namefile are both
  missing, or the path of the yolo config file or of the weights is missing, the
  constructor throws before any native call and constructs nothing. Otherwise, when the
  names are given or the names file can be read, construction goes on to the native calls,
  opening the library first, and yields a detector if the library loads; when the names have
  to come from a file that cannot be read, the constructor throws as well, again before any
  native call.
\<close>

theorem constructor_checks:
  "(config_missing config \<longrightarrow>
      fst (constructor e config) = [] \<and> \<not> succeeded (snd (constructor e config))) \<and>
   (\<not> config_missing (Some cfg) \<and> names_available e cfg \<longrightarrow>
      fst (constructor e (Some cfg)) \<noteq> [] \<and> hd (fst (constructor e (Some cfg))) = OpenLibrary \<and>
      (library_loads e \<longrightarrow> succeeded (snd (constructor e (Some cfg))))) \<and>
   (\<not> config_missing (Some cfg) \<and> \<not> names_available e cfg \<longrightarrow>
      constructor e (Some cfg) = ([], Inl FileError))"
  using constructor_missing [of config e] constructor_unreadable [of cfg e]
    constructor_proceeds [of cfg e]
  by blast

theorem constructor_checks_witness:
  "fst (constructor example_env None) = [] \<and> \<not> succeeded (snd (constructor example_env None)) \<and>
   fst (constructor example_env (Some example_config)) \<noteq> [] \<and>
   succeeded (snd (constructor example_env (Some example_config))) \<and>
   constructor example_env (Some example_namefile_config) = ([], Inl FileError)"
proof -
  have a: "config_missing None" by (simp add: config_missing_def)
  have b: "\<not> config_missing (Some example_config) \<and> names_available example_env example_config"
    by (simp add: config_missing_def names_available_def example_config_def)
  have c: "\<not> config_missing (Some example_namefile_config) \<and>
           \<not> names_available example_env example_namefile_config"
    by (simp add: config_missing_def names_available_def example_namefile_config_def example_env_def)
  have l: "library_loads example_env" by (simp add: example_env_def)
  show ?thesis
    using constructor_checks [of None example_env example_config]
      constructor_checks [of None example_env example_namefile_config] a b c l
    by blast
qed

text \<open>
  The claim as stated ("otherwise construction proceeds") fails for a configuration that
  lacks nothing but names a file that cannot be read.
\<close>

theorem unreadable_namefile_counterexample:
  "\<not> config_missing (Some example_namefile_config) \<and>
   constructor example_env (Some example_namefile_config) = ([], Inl FileError)"
  by (simp add: config_missing_def constructor_def example_namefile_config_def example_env_def)

section \<open>Image codec: the index maps\<close>

lemma fold_product:
  "fold (\<lambda>x. fold (f x) ys) xs acc = fold (\<lambda>(x, y). f x y) (List.product xs ys) acc"
  by (induction xs arbitrary: acc) (simp_all add: fold_map comp_def)

lemma fold_update_length [simp]:
  "length (fold (\<lambda>(q, u) a. a[q := u]) ws xs) = length xs"
  by (induction ws arbitrary: xs) (simp_all add: split_def)

lemma fold_update_other:
  "p \<notin> fst ` set ws \<Longrightarrow> fold (\<lambda>(q, u) a. a[q := u]) ws xs ! p = xs ! p"
  by (induction ws arbitrary: xs) (auto simp: split_def)

lemma fold_update_nth:
  "distinct (map fst ws) \<Longrightarrow> (p, v) \<in> set ws \<Longrightarrow> p < length xs \<Longrightarrow>
   fold (\<lambda>(q, u) a. a[q := u]) ws xs ! p = v"
proof (induction ws arbitrary: xs)
  case Nil
  then show ?case by simp
next
  case (Cons a ws)
  obtain q u where a: "a = (q, u)" by (cases a)
  show ?case
  proof (cases "(p, v) = a")
    case True
    then have "p \<notin> fst ` set ws" using Cons.prems(1) by force
    then show ?thesis using True a Cons.prems(3) by (simp add: fold_update_other)
  next
    case False
    then have "(p, v) \<in> set ws" using Cons.prems(2) by simp
    then show ?thesis using Cons.IH [of "xs[q := u]"] Cons.prems a by simp
  qed
qed

text \<open>The two index maps and their inverses.\<close>

lemma planar_index_split:
  fixes w h i j k :: nat
  assumes "j < w" "i < h"
  shows "(k * w * h + i * w + j) mod w = j"
    and "(k * w * h + i * w + j) div w mod h = i"
    and "(k * w * h + i * w + j) div w div h = k"
proof -
  have e: "k * w * h + i * w + j = (k * h + i) * w + j"
    by (simp add: add_mult_distrib mult.assoc mult.commute [of w h])
  show "(k * w * h + i * w + j) mod w = j" using assms by (simp add: e)
  have d: "(k * w * h + i * w + j) div w = k * h + i" using assms by (simp add: e)
  show "(k * w * h + i * w + j) div w mod h = i" using assms by (simp add: d)
  show "(k * w * h + i * w + j) div w div h = k" using assms by (simp add: d)
qed

lemma planar_index_less:
  assumes "j < w" "i < h" "k < c"
  shows "k * w * h + i * w + j < w * h * (c::nat)"
proof -
  have "i * w + j < (i + 1) * w" using assms by simp
  also have "\<dots> \<le> h * w" using assms by (intro mult_le_mono1) simp
  finally have a: "i * w + j < w * h" by (simp add: mult.commute)
  have "k * w * h + i * w + j < k * (w * h) + w * h" using a by (simp add: mult.assoc)
  also have "\<dots> = (k + 1) * (w * h)" by simp
  also have "\<dots> \<le> c * (w * h)" using assms by (intro mult_le_mono1) simp
  finally show ?thesis by (simp add: mult.commute)
qed

lemma interleaved_index_split:
  fixes w c i j k :: nat
  assumes "k < c" "j < w"
  shows "(i * (w * c) + j * c + k) mod c = k"
    and "(i * (w * c) + j * c + k) div c mod w = j"
    and "(i * (w * c) + j * c + k) div c div w = i"
proof -
  have e: "i * (w * c) + j * c + k = (i * w + j) * c + k"
    by (simp add: add_mult_distrib mult.assoc)
  show "(i * (w * c) + j * c + k) mod c = k" using assms by (simp add: e)
  have d: "(i * (w * c) + j * c + k) div c = i * w + j" using assms by (simp add: e)
  show "(i * (w * c) + j * c + k) div c mod w = j" using assms by (simp add: d)
  show "(i * (w * c) + j * c + k) div c div w = i" using assms by (simp add: d)
qed

lemma interleaved_index_less:
  assumes "j < w" "i < h" "k < c"
  shows "i * (w * c) + j * c + k < w * h * (c::nat)"
proof -
  have "j * c + k < (j + 1) * c" using assms by simp
  also have "\<dots> \<le> w * c" using assms by (intro mult_le_mono1) simp
  finally have a: "j * c + k < w * c" .
  have "i * (w * c) + j * c + k < i * (w * c) + w * c" using a by simp
  also have "\<dots> = (i + 1) * (w * c)" by simp
  also have "\<dots> \<le> h * (w * c)" using assms by (intro mult_le_mono1) simp
  finally show ?thesis by (simp add: ac_simps)
qed

lemma loop_triples_set: "(i, k, j) \<in> set (loop_triples w h c) \<longleftrightarrow> i < h \<and> k < c \<and> j < w"
  by (auto simp: loop_triples_def)

lemma loop_triples_distinct: "distinct (loop_triples w h c)"
  by (simp add: loop_triples_def distinct_product)

lemma nested_loops:
  "fold (\<lambda>i. fold (\<lambda>k. fold (\<lambda>j a. a[idx i k j := v i k j]) [0..<w]) [0..<c]) [0..<h] init =
   fold (\<lambda>(q, u) a. a[q := u]) (map (\<lambda>(i, k, j). (idx i k j, v i k j)) (loop_triples w h c)) init"
proof -
  have inner: "\<And>i. fold (\<lambda>k. fold (\<lambda>j a. a[idx i k j := v i k j]) [0..<w]) [0..<c] =
      fold (\<lambda>(k, j) a. a[idx i k j := v i k j]) (List.product [0..<c] [0..<w])"
    by (rule ext) (rule fold_product)
  have outer: "fold (\<lambda>i. fold (\<lambda>(k, j) a. a[idx i k j := v i k j]) (List.product [0..<c] [0..<w]))
        [0..<h] init =
      fold (\<lambda>(i, k, j) a. a[idx i k j := v i k j]) (loop_triples w h c) init"
    unfolding loop_triples_def
    using fold_product [where f = "\<lambda>i (k, j) a. a[idx i k j := v i k j]"
        and xs = "[0..<h]" and ys = "List.product [0..<c] [0..<w]" and acc = init]
    by simp
  show ?thesis
    unfolding inner outer by (simp add: fold_map comp_def split_def)
qed

lemma nested_loops_nth:
  assumes inj: "inj_on (\<lambda>(i, k, j). idx i k j) (set (loop_triples w h c))"
    and "i < h" "k < c" "j < w" "idx i k j < length init"
  shows "fold (\<lambda>i. fold (\<lambda>k. fold (\<lambda>j a. a[idx i k j := v i k j]) [0..<w]) [0..<c]) [0..<h] init
           ! idx i k j = v i k j"
proof -
  let ?ws = "map (\<lambda>(i, k, j). (idx i k j, v i k j)) (loop_triples w h c)"
  have m: "map fst ?ws = map (\<lambda>(i, k, j). idx i k j) (loop_triples w h c)"
    by (simp add: comp_def split_def)
  have d: "distinct (map fst ?ws)"
    unfolding m using inj by (simp add: distinct_map loop_triples_distinct)
  have "(i, k, j) \<in> set (loop_triples w h c)" using assms by (simp add: loop_triples_set)
  then have "(idx i k j, v i k j) \<in> set ?ws" by force
  from fold_update_nth [OF d this assms(5)] show ?thesis by (simp add: nested_loops)
qed

lemma nested_loops_length:
  "length (fold (\<lambda>i. fold (\<lambda>k. fold (\<lambda>j a. a[idx i k j := v i k j]) [0..<w]) [0..<c]) [0..<h] init)
     = length init"
  by (simp add: nested_loops)

lemma planar_inj:
  "inj_on (\<lambda>(i, k, j). k * w * h + i * w + j) (set (loop_triples w h c))"
proof (rule inj_onI)
  fix a b
  assume a: "a \<in> set (loop_triples w h c)" and b: "b \<in> set (loop_triples w h c)"
    and e: "(case a of (i, k, j) \<Rightarrow> k * w * h + i * w + j) =
            (case b of (i, k, j) \<Rightarrow> k * w * h + i * w + j)"
  obtain i k j where a': "a = (i, k, j)" by (cases a) auto
  obtain i' k' j' where b': "b = (i', k', j')" by (cases b) auto
  from a a' have l: "i < h" "k < c" "j < w" by (simp_all add: loop_triples_set)
  from b b' have l': "i' < h" "k' < c" "j' < w" by (simp_all add: loop_triples_set)
  from e a' b' have eq: "k * w * h + i * w + j = k' * w * h + i' * w + j'" by simp
  have "j = j'"
    using planar_index_split(1) [OF l(3) l(1), of k] planar_index_split(1) [OF l'(3) l'(1), of k'] eq
    by simp
  moreover have "i = i'"
    using planar_index_split(2) [OF l(3) l(1), of k] planar_index_split(2) [OF l'(3) l'(1), of k'] eq
    by simp
  moreover have "k = k'"
    using planar_index_split(3) [OF l(3) l(1), of k] planar_index_split(3) [OF l'(3) l'(1), of k'] eq
    by simp
  ultimately show "a = b" using a' b' by simp
qed

lemma interleaved_inj:
  "inj_on (\<lambda>(i, k, j). i * (w * c) + j * c + k) (set (loop_triples w h c))"
proof (rule inj_onI)
  fix a b
  assume a: "a \<in> set (loop_triples w h c)" and b: "b \<in> set (loop_triples w h c)"
    and e: "(case a of (i, k, j) \<Rightarrow> i * (w * c) + j * c + k) =
            (case b of (i, k, j) \<Rightarrow> i * (w * c) + j * c + k)"
  obtain i k j where a': "a = (i, k, j)" by (cases a) auto
  obtain i' k' j' where b': "b = (i', k', j')" by (cases b) auto
  from a a' have l: "i < h" "k < c" "j < w" by (simp_all add: loop_triples_set)
  from b b' have l': "i' < h" "k' < c" "j' < w" by (simp_all add: loop_triples_set)
  from e a' b' have eq: "i * (w * c) + j * c + k = i' * (w * c) + j' * c + k'" by simp
  have "k = k'"
    using interleaved_index_split(1) [OF l(2) l(3), of i] interleaved_index_split(1) [OF l'(2) l'(3), of i'] eq
    by simp
  moreover have "j = j'"
    using interleaved_index_split(2) [OF l(2) l(3), of i] interleaved_index_split(2) [OF l'(2) l'(3), of i'] eq
    by simp
  moreover have "i = i'"
    using interleaved_index_split(3) [OF l(2) l(3), of i] interleaved_index_split(3) [OF l'(2) l'(3), of i'] eq
    by simp
  ultimately show "a = b" using a' b' by simp
qed

section \<open>Rounding to nearest\<close>

lemma powi2_pos [simp]: "0 < (2::rat) powi e"
  by simp

lemma powi2_less_iff: "(2::rat) powi a < 2 powi b \<longleftrightarrow> a < b"
  by (metis less_irrefl not_less_iff_gr_or_eq numeral_One numeral_less_iff one_less_numeral_iff
      power_int_strict_increasing semiring_norm(76) order_less_trans)

lemma powi2_le_iff: "(2::rat) powi a \<le> 2 powi b \<longleftrightarrow> a \<le> b"
  using powi2_less_iff [of b a] by (auto simp: not_less [symmetric])

lemma bitlen_bounds_rat:
  assumes "0 < n"
  shows "(2::rat) powi (bitlen n - 1) \<le> of_int n" and "of_int n < (2::rat) powi bitlen n"
proof -
  from bitlen_bounds [OF assms]
  have a: "2 ^ nat (bitlen n - 1) \<le> n" and b: "n < 2 ^ nat (bitlen n)" by simp_all
  have p: "1 \<le> bitlen n" using assms by (simp add: bitlen_alt_def)
  have "(2::rat) powi (bitlen n - 1) = 2 ^ nat (bitlen n - 1)"
    using p by (simp add: power_int_nonneg_exp)
  also have "\<dots> = of_int (2 ^ nat (bitlen n - 1))" by simp
  also have "\<dots> \<le> of_int n" using a by (simp only: of_int_le_iff)
  finally show "(2::rat) powi (bitlen n - 1) \<le> of_int n" .
  have "(of_int n :: rat) < of_int (2 ^ nat (bitlen n))" using b by (simp only: of_int_less_iff)
  also have "\<dots> = 2 ^ nat (bitlen n)" by simp
  also have "\<dots> = (2::rat) powi bitlen n" using p by (simp add: power_int_nonneg_exp)
  finally show "of_int n < (2::rat) powi bitlen n" .
qed

lemma floor_log2_bounds:
  assumes "0 < x"
  shows "2 powi (floor_log2 x) \<le> x \<and> x < 2 powi (floor_log2 x + 1)"
proof -
  obtain n d where q: "quotient_of x = (n, d)" by (cases "quotient_of x")
  have d: "0 < d" using q by (rule quotient_of_denom_pos)
  have x: "x = of_int n / of_int d" using q by (rule quotient_of_div)
  have n: "0 < n" using assms d x by (simp add: zero_less_divide_iff)
  let ?k = "bitlen n - bitlen d"
  note bn = bitlen_bounds_rat [OF n] and bd = bitlen_bounds_rat [OF d]
  have dpos: "(0::rat) < of_int d" using d by simp
  have up: "x < 2 powi (?k + 1)"
  proof -
    have "x < 2 powi bitlen n / of_int d"
      unfolding x using bn(2) dpos by (simp add: divide_strict_right_mono)
    also have "\<dots> \<le> 2 powi bitlen n / 2 powi (bitlen d - 1)"
      using bd(1) dpos by (intro divide_left_mono) (simp_all)
    also have "\<dots> = 2 powi (?k + 1)"
      by (simp add: power_int_diff [symmetric] algebra_simps)
    finally show ?thesis .
  qed
  have lo: "2 powi (?k - 1) \<le> x"
  proof -
    have "(2::rat) powi (?k - 1) = 2 powi (bitlen n - 1) / 2 powi bitlen d"
      by (simp add: power_int_diff [symmetric] algebra_simps)
    also have "\<dots> \<le> of_int n / 2 powi bitlen d"
      using bn(1) by (simp add: divide_right_mono)
    also have "\<dots> \<le> of_int n / of_int d"
      using bd(2) dpos n by (intro divide_left_mono) (simp_all)
    finally show ?thesis by (simp add: x)
  qed
  show ?thesis
  proof (cases "2 powi ?k \<le> x")
    case True
    then show ?thesis using up by (simp add: floor_log2_def q)
  next
    case False
    then show ?thesis using lo by (simp add: floor_log2_def q)
  qed
qed

lemma floor_log2_unique:
  assumes "0 < x" "2 powi e \<le> x" "x < 2 powi (e + 1)"
  shows "floor_log2 x = e"
proof -
  from floor_log2_bounds [OF assms(1)]
  have a: "2 powi (floor_log2 x) \<le> x" and b: "x < 2 powi (floor_log2 x + 1)" by simp_all
  have "(2::rat) powi e < 2 powi (floor_log2 x + 1)" using assms(2) b by simp
  then have 1: "e < floor_log2 x + 1" by (simp add: powi2_less_iff)
  have "(2::rat) powi (floor_log2 x) < 2 powi (e + 1)" using a assms(3) by simp
  then have 2: "floor_log2 x < e + 1" by (simp add: powi2_less_iff)
  from 1 2 show ?thesis by simp
qed

lemma round_half_even_near:
  assumes "of_int m - 1 / 2 < y" "y < of_int m + 1 / 2"
  shows "round_half_even y = m"
proof (cases "of_int m \<le> y")
  case True
  then have f: "\<lfloor>y\<rfloor> = m" using assms(2) by (intro floor_unique) auto
  show ?thesis using assms(2) by (simp add: round_half_even_def f Let_def)
next
  case False
  then have f: "\<lfloor>y\<rfloor> = m - 1" using assms(1) by (intro floor_unique) auto
  show ?thesis using assms(1) False by (simp add: round_half_even_def f Let_def)
qed

lemma round_half_even_int [simp]: "round_half_even (of_int m) = m"
  by (rule round_half_even_near) simp_all

lemma round_half_even_error: "\<bar>of_int (round_half_even y) - y\<bar> \<le> 1 / 2"
proof -
  define d where "d = y - of_int \<lfloor>y\<rfloor>"
  have a: "0 \<le> d" and b: "d < 1" unfolding d_def by linarith+
  have y: "y = of_int \<lfloor>y\<rfloor> + d" by (simp add: d_def)
  consider "d < 1 / 2" | "1 / 2 < d" | "d = 1 / 2" by linarith
  then show ?thesis
  proof cases
    case 1
    then have "round_half_even y = \<lfloor>y\<rfloor>"
      by (simp add: round_half_even_def Let_def d_def)
    then show ?thesis using a 1 by (simp add: d_def)
  next
    case 2
    then have "round_half_even y = \<lfloor>y\<rfloor> + 1"
      by (simp add: round_half_even_def Let_def d_def)
    then show ?thesis using b 2 by (simp add: d_def)
  next
    case 3
    then have "round_half_even y = \<lfloor>y\<rfloor> \<or> round_half_even y = \<lfloor>y\<rfloor> + 1"
      by (simp add: round_half_even_def Let_def d_def)
    then show ?thesis using 3 by (auto simp: d_def)
  qed
qed

lemma round_half_even_ge: "of_int m \<le> y \<Longrightarrow> m \<le> round_half_even y"
proof -
  assume "of_int m \<le> y"
  then have "m \<le> \<lfloor>y\<rfloor>" by (simp add: le_floor_iff)
  then show ?thesis by (auto simp: round_half_even_def Let_def)
qed

lemma round_prec_pos:
  assumes "0 < x" "2 powi e \<le> x" "x < 2 powi (e + 1)" "emin \<le> e"
  shows "round_prec p emin x =
           of_int (round_half_even (x / 2 powi (e - int p + 1))) * 2 powi (e - int p + 1)"
proof -
  have f: "floor_log2 x = e" using assms(1-3) by (rule floor_log2_unique)
  have m: "max e emin = e" using assms(4) by simp
  show ?thesis using assms(1) by (simp add: round_prec_def f m Let_def)
qed

lemma round_prec_near:
  assumes "0 < x" "2 powi e \<le> x" "x < 2 powi (e + 1)" "emin \<le> e"
    and "of_int m - 1 / 2 < x / 2 powi (e - int p + 1)"
    and "x / 2 powi (e - int p + 1) < of_int m + 1 / 2"
  shows "round_prec p emin x = of_int m * 2 powi (e - int p + 1)"
  using round_prec_pos [OF assms(1-4)] round_half_even_near [OF assms(5,6)] by simp

lemma round_prec_exact:
  assumes "2 ^ (p - 1) \<le> M" "M < 2 ^ p" "1 \<le> p" "emin \<le> j + int p - 1"
  shows "round_prec p emin (of_int M * 2 powi j) = of_int M * 2 powi j"
proof -
  let ?x = "of_int M * (2::rat) powi j"
  let ?e = "j + int p - 1"
  obtain p' where p': "p = Suc p'" using assms(3) by (cases p) auto
  have "(0::int) < 2 ^ (p - 1)" by simp
  then have Mpos: "0 < M" using assms(1) by linarith
  have x: "0 < ?x" using Mpos by simp
  have "(2::rat) powi ?e = 2 ^ (p - 1) * 2 powi j"
    by (simp add: p' power_int_add algebra_simps)
  also have "\<dots> = of_int (2 ^ (p - 1)) * 2 powi j" by simp
  also have "\<dots> \<le> ?x"
  proof -
    have le: "(of_int (2 ^ (p - 1)) :: rat) \<le> of_int M"
      using assms(1) by (simp only: of_int_le_iff)
    show ?thesis by (rule mult_right_mono [OF le]) simp
  qed
  finally have lo: "2 powi ?e \<le> ?x" .
  have "?x < of_int (2 ^ p) * 2 powi j"
  proof -
    have lt: "(of_int M :: rat) < of_int (2 ^ p)"
      using assms(2) by (simp only: of_int_less_iff)
    show ?thesis by (rule mult_strict_right_mono [OF lt]) simp
  qed
  also have "\<dots> = 2 powi (?e + 1)"
    by (simp add: p' power_int_add algebra_simps)
  finally have hi: "?x < 2 powi (?e + 1)" .
  have q: "?e - int p + 1 = j" by simp
  have "round_prec p emin ?x = of_int M * 2 powi (?e - int p + 1)"
    by (rule round_prec_near [OF x lo hi assms(4)]) (simp_all add: q)
  then show ?thesis by (simp add: q)
qed

lemma round_prec_error:
  assumes "0 < x" "2 powi e \<le> x" "x < 2 powi (e + 1)" "emin \<le> e" "1 \<le> p"
  shows "\<bar>round_prec p emin x - x\<bar> \<le> 2 powi (e - int p)" and "2 powi e \<le> round_prec p emin x"
proof -
  let ?q = "(2::rat) powi (e - int p + 1)"
  let ?r = "round_half_even (x / ?q)"
  have r: "round_prec p emin x = of_int ?r * ?q" by (rule round_prec_pos [OF assms(1-4)])
  have qpos: "0 < ?q" by simp
  have "of_int ?r * ?q - x = (of_int ?r - x / ?q) * ?q"
    by (simp add: left_diff_distrib)
  then have "\<bar>of_int ?r * ?q - x\<bar> = \<bar>of_int ?r - x / ?q\<bar> * ?q"
    by (simp only: abs_mult) simp
  also have "\<dots> \<le> 1 / 2 * ?q"
    using round_half_even_error [of "x / ?q"] qpos by (intro mult_right_mono) simp_all
  also have "\<dots> = 2 powi (e - int p)"
    by (simp add: power_int_add)
  finally show "\<bar>round_prec p emin x - x\<bar> \<le> 2 powi (e - int p)" by (simp add: r)
  obtain p' where p': "p = Suc p'" using assms(5) by (cases p) auto
  have e: "(2::rat) powi e = of_int (2 ^ (p - 1)) * ?q"
    by (simp add: p' power_int_add power_int_diff algebra_simps)
  have "of_int (2 ^ (p - 1)) \<le> x / ?q"
    using assms(2) qpos unfolding e by (simp add: pos_le_divide_eq del: powi2_pos)
  then have "2 ^ (p - 1) \<le> ?r" by (rule round_half_even_ge)
  then have "(of_int (2 ^ (p - 1)) :: rat) \<le> of_int ?r" by (simp only: of_int_le_iff)
  then have "of_int (2 ^ (p - 1)) * ?q \<le> of_int ?r * ?q"
    using qpos by (intro mult_right_mono) simp_all
  then show "2 powi e \<le> round_prec p emin x" by (simp add: r e)
qed

lemma round_half_even_closest: "\<bar>of_int (round_half_even y) - y\<bar> \<le> \<bar>of_int k - y\<bar>"
proof -
  define d where "d = y - of_int \<lfloor>y\<rfloor>"
  have a: "0 \<le> d" and b: "d < 1" unfolding d_def by linarith+
  have r: "\<bar>of_int (round_half_even y) - y\<bar> \<le> d \<and> \<bar>of_int (round_half_even y) - y\<bar> \<le> 1 - d"
  proof -
    consider "d < 1 / 2" | "1 / 2 < d" | "d = 1 / 2" by linarith
    then show ?thesis
    proof cases
      case 1
      then have "round_half_even y = \<lfloor>y\<rfloor>" by (simp add: round_half_even_def Let_def d_def)
      then show ?thesis using a 1 by (simp add: d_def)
    next
      case 2
      then have "round_half_even y = \<lfloor>y\<rfloor> + 1" by (simp add: round_half_even_def Let_def d_def)
      then show ?thesis using b 2 by (simp add: d_def)
    next
      case 3
      then have "round_half_even y = \<lfloor>y\<rfloor> \<or> round_half_even y = \<lfloor>y\<rfloor> + 1"
        by (simp add: round_half_even_def Let_def d_def)
      then show ?thesis using 3 by (auto simp: d_def)
    qed
  qed
  show ?thesis
  proof (cases "k \<le> \<lfloor>y\<rfloor>")
    case True
    then have "(of_int k :: rat) \<le> of_int \<lfloor>y\<rfloor>" by (simp only: of_int_le_iff)
    then have "d \<le> \<bar>of_int k - y\<bar>" by (simp add: d_def)
    then show ?thesis using r by linarith
  next
    case False
    then have "\<lfloor>y\<rfloor> + 1 \<le> k" by simp
    then have "(of_int (\<lfloor>y\<rfloor> + 1) :: rat) \<le> of_int k" by (simp only: of_int_le_iff)
    then have "1 - d \<le> \<bar>of_int k - y\<bar>" by (simp add: d_def)
    then show ?thesis using r by linarith
  qed
qed

text \<open>
  Within its binade, the rounded value is a multiple of the spacing and no other multiple
  is nearer.
\<close>

lemma round_prec_closest:
  assumes "0 < x" "2 powi e \<le> x" "x < 2 powi (e + 1)" "emin \<le> e"
  shows "\<bar>round_prec p emin x - x\<bar> \<le> \<bar>of_int k * 2 powi (e - int p + 1) - x\<bar>"
proof -
  let ?q = "(2::rat) powi (e - int p + 1)"
  let ?r = "round_half_even (x / ?q)"
  have r: "round_prec p emin x = of_int ?r * ?q" by (rule round_prec_pos [OF assms])
  have e1: "of_int ?r * ?q - x = (of_int ?r - x / ?q) * ?q" by (simp add: left_diff_distrib)
  have e2: "of_int k * ?q - x = (of_int k - x / ?q) * ?q" by (simp add: left_diff_distrib)
  have "\<bar>of_int ?r - x / ?q\<bar> * ?q \<le> \<bar>of_int k - x / ?q\<bar> * ?q"
    by (rule mult_right_mono [OF round_half_even_closest]) simp
  then show ?thesis unfolding r e1 e2 by (simp only: abs_mult) simp
qed

text \<open>Known values: a third in single precision, a tenth in double precision, and two ties.\<close>

lemma rounding_examples:
  "to_single (1 / 3) = 11184811 / 33554432"
  "to_double (1 / 10) = 3602879701896397 / 36028797018963968"
  "to_single (1 + 1 / 2 ^ 24) = 1"
  "to_single (1 + 3 / 2 ^ 24) = 1 + 4 / 2 ^ 24"
proof -
  show "to_single (1 / 3) = 11184811 / 33554432"
    unfolding to_single_def
    using round_prec_near [of "1 / 3" "- 2" "- 126" 11184811 24] by simp
  show "to_double (1 / 10) = 3602879701896397 / 36028797018963968"
    unfolding to_double_def
    using round_prec_near [of "1 / 10" "- 4" "- 1022" 7205759403792794 53] by simp
  have f1: "\<lfloor>(8388608::rat) + 1 / 2\<rfloor> = 8388608" by (intro floor_unique) simp_all
  show "to_single (1 + 1 / 2 ^ 24) = 1"
    unfolding to_single_def
    using round_prec_pos [of "1 + 1 / 2 ^ 24" 0 "- 126" 24] f1
    by (simp add: round_half_even_def Let_def add_divide_distrib)
  have f2: "\<lfloor>(8388609::rat) + 1 / 2\<rfloor> = 8388609" by (intro floor_unique) simp_all
  show "to_single (1 + 3 / 2 ^ 24) = 1 + 4 / 2 ^ 24"
    unfolding to_single_def
    using round_prec_pos [of "1 + 3 / 2 ^ 24" 0 "- 126" 24] f2
    by (simp add: round_half_even_def Let_def add_divide_distrib)
qed

section \<open>A byte through \<open>/ 255\<close>, single precision and \<open>* 255\<close>\<close>

lemma sample_mid:
  fixes n :: nat
  assumes n1: "1 \<le> n" and n2: "n \<le> 254"
  shows "\<lfloor>to_double (to_single (to_double (of_nat n / 255)) * 255)\<rfloor> = int n"
    and "0 \<le> to_double (to_single (to_double (of_nat n / 255)) * 255)"
    and "of_nat n / 255 \<le> to_single (to_double (of_nat n / 255))"
    and "to_single (to_double (of_nat n / 255)) \<le> of_nat n / 255 + 1 / 2 ^ 25"
proof -
  define x :: rat where "x = of_nat n / 255"
  define e where "e = floor_log2 x"
  define P :: rat where "P = 2 powi e"
  have xpos: "0 < x" using n1 by (simp add: x_def)
  have Ppos: "0 < P" by (simp add: P_def)
  have P2: "(2::rat) powi (e + 1) = 2 * P" by (simp add: P_def power_int_add)
  from floor_log2_bounds [OF xpos]
  have lo: "P \<le> x" and hi: "x < 2 * P" by (simp_all add: e_def [symmetric] P_def [symmetric] P2)
  have "x < 1" using n2 by (simp add: x_def)
  then have "(2::rat) powi e < 2 powi 0" using lo by (simp add: P_def)
  then have "e < 0" by (simp only: powi2_less_iff)
  then have e_hi: "e \<le> - 1" by simp
  have "(2::rat) powi (- 8) < x" using n1 by (simp add: x_def)
  then have "(2::rat) powi (- 8) < 2 powi (e + 1)" using hi by (simp add: P2)
  then have "- 8 < e + 1" by (simp only: powi2_less_iff)
  then have e_lo: "- 8 \<le> e" by simp
  have Phalf: "P \<le> 1 / 2"
  proof -
    have "(2::rat) powi e \<le> 2 powi (- 1)" using e_hi by (simp only: powi2_le_iff)
    then show ?thesis by (simp add: P_def)
  qed
  define N :: int where "N = int n * 2 ^ nat (- e - 1)"
  have "(2::rat) powi (- e - 1) * (2 * P) = 1"
    by (simp add: P2 [symmetric] power_int_add [symmetric])
  moreover have "(of_int N :: rat) = of_nat n * 2 powi (- e - 1)"
    using e_hi by (simp add: N_def power_int_nonneg_exp)
  ultimately have nN: "(of_nat n :: rat) = of_int N * (2 * P)"
    by (simp add: mult.assoc)
  have xN: "x = of_int N * (2 * P) / 255" by (simp add: x_def nN)
  have "255 \<le> 2 * (of_int N :: rat)" using lo Ppos by (simp add: xN)
  then have "(of_int 255 :: rat) \<le> of_int (2 * N)" by simp
  then have "255 \<le> 2 * N" by (simp only: of_int_le_iff)
  then have N_lo: "128 \<le> N" by simp
  have "(of_int N :: rat) < 255" using hi Ppos by (simp add: xN)
  then have "(of_int N :: rat) < of_int 255" by simp
  then have "N < 255" by (simp only: of_int_less_iff)
  then have N_hi: "N \<le> 254" by simp
  have N_lo': "(128::rat) \<le> of_int N" using N_lo by (metis of_int_le_iff of_int_numeral)
  have N_hi': "(of_int N :: rat) \<le> 254" using N_hi by (metis of_int_le_iff of_int_numeral)

  \<comment> \<open>the quotient, rounded to double\<close>
  define d where "d = to_double x"
  have xhi': "x < 2 powi (e + 1)" using hi by (simp add: P2)
  have xlo': "2 powi e \<le> x" using lo by (simp add: P_def)
  have em: "- 1022 \<le> e" "- 126 \<le> e" using e_lo by simp_all
  define eps :: rat where "eps = P / 2 ^ 53"
  have eps: "(2::rat) powi (e - int 53) = eps" by (simp add: eps_def P_def power_int_diff)
  have derr: "\<bar>d - x\<bar> \<le> eps" and dlo: "P \<le> d"
    using round_prec_error [OF xpos xlo' xhi' em(1), of 53]
    unfolding d_def to_double_def eps P_def by simp_all
  have dpos: "0 < d" using dlo Ppos by simp
  have x254: "x \<le> 254 * (2 * P) / 255"
  proof -
    have "of_int N * (2 * P) \<le> 254 * (2 * P)"
      using N_hi' Ppos by (intro mult_right_mono) simp_all
    then show ?thesis by (simp add: xN)
  qed
  have eps_small: "254 * (2 * P) / 255 + eps < 2 * P" using Ppos by (simp add: eps_def)
  have dhi: "d < 2 * P" using derr x254 eps_small by linarith

  \<comment> \<open>the double, stored as a single\<close>
  define m :: int where "m = N * 65793 + 1"
  define q :: rat where "q = P / 2 ^ 23"
  have q: "(2::rat) powi (e - int 24 + 1) = q" by (simp add: q_def P_def power_int_diff)
  have qpos: "0 < q" using Ppos by (simp add: q_def)
  define u where "u = (d - x) / q"
  define tiny :: rat where "tiny = 1 / 2 ^ 30"
  have uerr: "\<bar>u\<bar> \<le> tiny"
  proof -
    have "\<bar>u\<bar> = \<bar>d - x\<bar> / q" using qpos by (simp add: u_def)
    also have "\<dots> \<le> eps / q" using derr qpos by (intro divide_right_mono) simp_all
    also have "\<dots> = tiny" using Ppos by (simp add: q_def eps_def tiny_def)
    finally show ?thesis .
  qed
  have tiny_small: "tiny < 1 / 510" "0 < tiny" by (simp_all add: tiny_def)
  have frac_lo: "128 / 255 \<le> (of_int N :: rat) / 255" using N_lo' by simp
  have frac_hi: "(of_int N :: rat) / 255 \<le> 254 / 255" using N_hi' by simp
  have xq: "x / q = of_int N * 65793 + of_int N / 255"
    using Ppos by (simp add: xN q_def field_simps)
  have dq: "d / q = x / q + u" using qpos by (simp add: u_def field_simps)
  have mr: "(of_int m :: rat) = of_int N * 65793 + 1" by (simp add: m_def)
  have near1: "of_int m - 1 / 2 < d / q"
    unfolding dq xq mr using uerr tiny_small frac_lo by linarith
  have near2: "d / q < of_int m + 1 / 2"
    unfolding dq xq mr using uerr tiny_small frac_hi by linarith
  have dlo': "2 powi e \<le> d" using dlo by (simp add: P_def)
  have dhi': "d < 2 powi (e + 1)" using dhi by (simp add: P2)
  have s: "to_single d = of_int m * q"
    unfolding to_single_def
    using round_prec_near [OF dpos dlo' dhi' em(2), of m 24] near1 near2
    by (simp only: q)

  \<comment> \<open>the single times 255, in double\<close>
  define M2 :: int where "M2 = N * 16777215 + 255"
  have z: "of_int m * q * 255 = of_int (M2 * 2 ^ 21) * 2 powi (e - 44)"
    using Ppos by (simp add: m_def M2_def q_def P_def [symmetric] power_int_diff field_simps)
  have M2b: "2 ^ (53 - 1) \<le> M2 * 2 ^ 21" "M2 * 2 ^ 21 < 2 ^ 53"
    using N_lo N_hi by (simp_all add: M2_def)
  have exact: "to_double (of_int m * q * 255) = of_int m * q * 255"
    unfolding to_double_def z
    by (rule round_prec_exact [OF M2b]) (use e_lo in simp_all)
  have val: "of_int m * q * 255 = of_nat n + (255 - of_int N) * q"
    using Ppos by (simp add: m_def q_def nN field_simps)
  have dl: "0 \<le> (255 - of_int N) * q" using N_hi' qpos by simp
  have "(255 - of_int N) * q \<le> 127 * q"
    using N_lo' qpos by (intro mult_right_mono) simp_all
  also have "\<dots> < 1" using Phalf by (simp add: q_def)
  finally have dh: "(255 - of_int N) * q < 1" .
  have r: "to_double (to_single (to_double (of_nat n / 255)) * 255) = of_nat n + (255 - of_int N) * q"
    using exact val s by (simp add: d_def x_def)
  show "\<lfloor>to_double (to_single (to_double (of_nat n / 255)) * 255)\<rfloor> = int n"
    unfolding r using dl dh by (intro floor_unique) simp_all
  show "0 \<le> to_double (to_single (to_double (of_nat n / 255)) * 255)"
    unfolding r using dl by simp
  have "x = (x / q) * q" using qpos by simp
  then have xq': "x = (of_int N * 65793 + of_int N / 255) * q" by (simp only: xq)
  have gap: "of_int m * q - x = (1 - of_int N / 255) * q"
    unfolding mr by (subst xq') (simp add: algebra_simps)
  have g0: "0 \<le> (1 - of_int N / 255) * q" using frac_hi qpos by simp
  have "(1 - of_int N / 255) * q \<le> (1 / 2) * q"
    using frac_lo qpos by (intro mult_right_mono) simp_all
  also have "\<dots> \<le> 1 / 2 ^ 25" using Phalf by (simp add: q_def)
  finally have g1: "(1 - of_int N / 255) * q \<le> 1 / 2 ^ 25" .
  have sv: "to_single (to_double (of_nat n / 255)) = of_int m * q"
    using s by (simp add: d_def x_def)
  show "of_nat n / 255 \<le> to_single (to_double (of_nat n / 255))"
    unfolding sv using gap g0 by (simp add: x_def)
  show "to_single (to_double (of_nat n / 255)) \<le> of_nat n / 255 + 1 / 2 ^ 25"
    unfolding sv using gap g1 by (simp add: x_def)
qed

section \<open>Image codec: layout and round trip\<close>

lemma to_double_zero [simp]: "to_double 0 = 0"
  by (simp add: to_double_def round_prec_def)

lemma to_single_zero [simp]: "to_single 0 = 0"
  by (simp add: to_single_def round_prec_def)

lemma to_double_one: "to_double 1 = 1"
  using round_prec_exact [of 53 "2 ^ 52" "- 1022" "- 52"] by (simp add: to_double_def)

lemma to_single_one: "to_single 1 = 1"
  using round_prec_exact [of 24 "2 ^ 23" "- 126" "- 23"] by (simp add: to_single_def)

lemma to_double_255: "to_double 255 = 255"
  using round_prec_exact [of 53 "255 * 2 ^ 45" "- 1022" "- 45"] by (simp add: to_double_def)

lemma sample_value:
  fixes n :: nat
  assumes "n \<le> 255"
  shows "\<lfloor>to_double (to_single (to_double (of_nat n / 255)) * 255)\<rfloor> = int n \<and>
         0 \<le> to_double (to_single (to_double (of_nat n / 255)) * 255)"
proof -
  consider "n = 0" | "n = 255" | "1 \<le> n \<and> n \<le> 254" using assms by linarith
  then show ?thesis
  proof cases
    case 1
    then show ?thesis by simp
  next
    case 2
    then show ?thesis by (simp add: to_double_one to_single_one to_double_255)
  next
    case 3
    then show ?thesis using sample_mid [of n] by simp
  qed
qed

lemma sample_accuracy:
  fixes b :: "8 word"
  shows "of_nat (unat b) / 255 \<le> to_single (to_double (of_nat (unat b) / 255)) \<and>
         to_single (to_double (of_nat (unat b) / 255)) \<le> of_nat (unat b) / 255 + 1 / 2 ^ 25"
proof -
  have "unat b < 2 ^ 8" using unsigned_less [of b] by simp
  then consider "unat b = 0" | "unat b = 255" | "1 \<le> unat b \<and> unat b \<le> 254" by fastforce
  then show ?thesis
  proof cases
    case 1
    then show ?thesis by simp
  next
    case 2
    then show ?thesis by (simp add: to_double_one to_single_one)
  next
    case 3
    then show ?thesis using sample_mid(3,4) [of "unat b"] by simp
  qed
qed

lemma sample_round_trip:
  "to_uint8 (mul255 (to_f32 (div255 (Fin (of_nat (unat b)))))) = (b :: 8 word)"
proof -
  have "unat b < 2 ^ 8" using unsigned_less [of b] by simp
  then have n: "unat b \<le> 255" by simp
  from sample_value [OF n] show ?thesis by simp
qed

lemma rgbToDarknet_length: "length (rgbToDarknet buffer w h c) = w * h * c"
  by (simp add: rgbToDarknet_def Let_def nested_loops_length)

lemma rgbToDarknet_nth:
  assumes "length buffer = w * h * c" and l: "i < h" "j < w" "k < c"
  shows "rgbToDarknet buffer w h c ! (k * w * h + i * w + j) =
           to_f32 (div255 (Fin (of_nat (unat (buffer ! (i * (w * c) + j * c + k))))))"
proof -
  have b: "i * (w * c) + j * c + k < length buffer"
    using interleaved_index_less [OF l(2) l(1) l(3)] assms(1) by simp
  have p: "k * w * h + i * w + j < length (replicate (w * h * c) (Fin 0))"
    using planar_index_less [OF l(2) l(1) l(3)] by simp
  have "rgbToDarknet buffer w h c ! (k * w * h + i * w + j) =
        to_f32 (div255 (byte_at buffer (i * (w * c) + j * c + k)))"
    unfolding rgbToDarknet_def Let_def
    by (rule nested_loops_nth [where idx = "\<lambda>i k j. k * w * h + i * w + j"
          and v = "\<lambda>i k j. to_f32 (div255 (byte_at buffer (i * (w * c) + j * c + k)))",
          OF planar_inj l(1) l(3) l(2) p])
  then show ?thesis using b by (simp add: byte_at_def)
qed

lemma imageToRGBBuffer_length:
  "length (imageToRGBBuffer garbage im) = img_w im * img_h im * img_c im"
  by (simp add: imageToRGBBuffer_def Let_def nested_loops_length)

lemma imageToRGBBuffer_nth:
  assumes l: "i < img_h im" "j < img_w im" "k < img_c im"
  shows "imageToRGBBuffer garbage im ! (i * (img_w im * img_c im) + j * img_c im + k) =
           to_uint8 (mul255 (img_data im (k * img_w im * img_h im + i * img_w im + j)))"
proof -
  let ?w = "img_w im" and ?h = "img_h im" and ?c = "img_c im"
  let ?data = "map (img_data im) [0..<?w * ?h * ?c]"
  have p: "k * ?w * ?h + i * ?w + j < ?w * ?h * ?c"
    by (rule planar_index_less [OF l(2) l(1) l(3)])
  have b: "i * (?w * ?c) + j * ?c + k < length (map garbage [0..<length ?data])"
    using interleaved_index_less [OF l(2) l(1) l(3)] by simp
  have "imageToRGBBuffer garbage im ! (i * (?w * ?c) + j * ?c + k) =
        to_uint8 (mul255 (float_at ?data (k * ?w * ?h + i * ?w + j)))"
    unfolding imageToRGBBuffer_def Let_def mult.commute [of ?c ?w]
    by (rule nested_loops_nth [where idx = "\<lambda>i k j. i * (?w * ?c) + j * ?c + k"
          and v = "\<lambda>i k j. to_uint8 (mul255 (float_at ?data (k * ?w * ?h + i * ?w + j)))",
          OF interleaved_inj l(1) l(3) l(2) b])
  then show ?thesis using p by (simp add: float_at_def)
qed

lemma interleaved_index_cover:
  fixes w h c p :: nat
  assumes "p < w * h * c"
  shows "\<exists>i<h. \<exists>j<w. \<exists>k<c. p = i * (w * c) + j * c + k"
proof -
  have c: "0 < c" using assms by (cases c) auto
  have w: "0 < w" using assms by (cases w) auto
  have k: "p mod c < c" using c by simp
  have "p div c < w * h" using assms by (simp add: less_mult_imp_div_less)
  then have pc: "p div c < h * w" by (simp add: mult.commute)
  have j: "p div c mod w < w" using w by simp
  have i: "p div c div w < h" using pc by (simp add: less_mult_imp_div_less)
  have "(p div c div w) * (w * c) + (p div c mod w) * c + p mod c =
        ((p div c div w) * w + p div c mod w) * c + p mod c"
    by (simp only: add_mult_distrib mult.assoc)
  also have "\<dots> = p" by simp
  finally have "p = (p div c div w) * (w * c) + (p div c mod w) * c + p mod c" by simp
  then show ?thesis using i j k by blast
qed

lemma round_trip_exact:
  assumes "length B = w * h * c" "img_w im = w" "img_h im = h" "img_c im = c"
    and "\<forall>p<w * h * c. img_data im p = rgbToDarknet B w h c ! p"
    and "p < w * h * c"
  shows "imageToRGBBuffer garbage im ! p = B ! p"
proof -
  from interleaved_index_cover [OF assms(6)] obtain i j k where
    l: "i < h" "j < w" "k < c" and p: "p = i * (w * c) + j * c + k" by blast
  have q: "k * w * h + i * w + j < w * h * c" by (rule planar_index_less [OF l(2) l(1) l(3)])
  have "imageToRGBBuffer garbage im ! p =
        to_uint8 (mul255 (img_data im (k * w * h + i * w + j)))"
    using imageToRGBBuffer_nth [of i im j k garbage] l assms(2-4) by (simp add: p)
  also have "img_data im (k * w * h + i * w + j) = rgbToDarknet B w h c ! (k * w * h + i * w + j)"
    using assms(5) q by simp
  also have "\<dots> = to_f32 (div255 (Fin (of_nat (unat (B ! p)))))"
    unfolding p by (rule rgbToDarknet_nth [OF assms(1) l])
  finally show ?thesis by (simp only: sample_round_trip)
qed

text \<open>
  C3. For an interleaved byte buffer of length \<open>w * h * c\<close>, \<open>rgbToDarknet\<close> yields
  \<open>w * h * c\<close> floats, and for every row \<open>i < h\<close>, column \<open>j < w\<close> and channel
  \<open>k < c\<close> the element at \<open>k * w * h + i * w + j\<close> is the input byte at
  \<open>i * (c * w) + j * c + k\<close> divided by 255, as the \<open>Float32Array\<close> cell holds it: the
  quotient rounded to single precision, which for a byte \<open>b\<close> lies between \<open>b / 255\<close> and
  \<open>b / 255 + 2^-25\<close>.
\<close>

theorem planar_layout:
  assumes "length buffer = w * h * c"
  shows "length (rgbToDarknet buffer w h c) = w * h * c \<and>
         (\<forall>i<h. \<forall>j<w. \<forall>k<c.
            rgbToDarknet buffer w h c ! (k * w * h + i * w + j) =
              to_f32 (div255 (Fin (of_nat (unat (buffer ! (i * (c * w) + j * c + k))))))) \<and>
         to_f32 (div255 (Fin (of_nat (unat b)))) = Fin (to_single (to_double (of_nat (unat b) / 255))) \<and>
         of_nat (unat b) / 255 \<le> to_single (to_double (of_nat (unat b) / 255)) \<and>
         to_single (to_double (of_nat (unat (b :: 8 word)) / 255)) \<le> of_nat (unat b) / 255 + 1 / 2 ^ 25"
  using rgbToDarknet_nth [OF assms] sample_accuracy [of b]
  by (simp add: rgbToDarknet_length mult.commute [of c w])

theorem planar_layout_witness:
  "length (rgbToDarknet [10, 20, 30, 40, 50, 60] 2 1 3) = 6 \<and>
   rgbToDarknet [10, 20, 30, 40, 50, 60] 2 1 3 ! 1 = to_f32 (div255 (Fin 40))"
proof -
  have h: "length [10, 20, 30, 40, 50, 60 :: 8 word] = 2 * 1 * 3" by simp
  from planar_layout [OF h]
  have a: "length (rgbToDarknet [10, 20, 30, 40, 50, 60] 2 1 3) = 2 * 1 * 3"
    and b: "\<forall>i<1. \<forall>j<2. \<forall>k<3.
            rgbToDarknet [10, 20, 30, 40, 50, 60] 2 1 3 ! (k * 2 * 1 + i * 2 + j) =
              to_f32 (div255 (Fin (of_nat (unat ([10, 20, 30, 40, 50, 60 :: 8 word] ! (i * (3 * 2) + j * 3 + k))))))"
    by blast+
  from b have "rgbToDarknet [10, 20, 30, 40, 50, 60] 2 1 3 ! (0 * 2 * 1 + 0 * 2 + 1) =
      to_f32 (div255 (Fin (of_nat (unat ([10, 20, 30, 40, 50, 60 :: 8 word] ! (0 * (3 * 2) + 1 * 3 + 0))))))"
    by (metis zero_less_one one_less_numeral_iff semiring_norm(76) zero_less_numeral)
  then show ?thesis using a by simp
qed

text \<open>
  C2. Converting a byte buffer of length \<open>w * h * c\<close> to the planar float form and
  running the loop of \<open>imageToRGBBuffer\<close> on that float data gives a buffer that differs
  from the original by at most 1 at every position, and equals it wherever the byte divided
  by 255 is exactly a single-precision value. (The proof shows more: single precision
  rounds every \<open>b / 255\<close> upwards, by less than \<open>1 / 255\<close>, so the truncation gives back
  \<open>b\<close> at every position.)
\<close>

theorem round_trip:
  assumes "length B = w * h * c" "img_w im = w" "img_h im = h" "img_c im = c"
    and "\<forall>p<w * h * c. img_data im p = rgbToDarknet B w h c ! p"
  shows "length (imageToRGBBuffer garbage im) = w * h * c \<and>
         (\<forall>p<w * h * c.
            \<bar>int (unat (imageToRGBBuffer garbage im ! p)) - int (unat (B ! p))\<bar> \<le> 1 \<and>
            (to_f32 (div255 (Fin (of_nat (unat (B ! p))))) = Fin (of_nat (unat (B ! p)) / 255) \<longrightarrow>
               imageToRGBBuffer garbage im ! p = B ! p))"
  using round_trip_exact [OF assms, of _ garbage] assms(2-4)
  by (simp add: imageToRGBBuffer_length)

theorem round_trip_witness:
  "length (imageToRGBBuffer (\<lambda>p. 0) example_planar_image) = 6 \<and>
   \<bar>int (unat (imageToRGBBuffer (\<lambda>p. 0) example_planar_image ! 3)) - int (unat (example_bytes ! 3))\<bar> \<le> 1"
proof -
  have h: "length example_bytes = 2 * 1 * 3" "img_w example_planar_image = 2"
    "img_h example_planar_image = 1" "img_c example_planar_image = 3"
    "\<forall>p<2 * 1 * 3. img_data example_planar_image p = rgbToDarknet example_bytes 2 1 3 ! p"
    by (simp_all add: example_bytes_def example_planar_image_def)
  from round_trip [OF h, of "\<lambda>p. 0"] show ?thesis by simp
qed

end
